theory Spec2Isabelle
  imports Main "HOL-Library.Word" "HOL-Library.Sublist"
begin

section \<open>The copy command of uplinkng (cmd/uplinkng/cmd\_cp.go)\<close>

text \<open>
  Go strings are byte sequences, modelled as \<open>string\<close> (a list of 8-bit characters).
  Go's \<open>int64\<close> is \<open>64 word\<close>: arithmetic wraps, comparisons are the signed ones.
\<close>

type_synonym int64 = "64 word"

subsection \<open>Library functions used by parseRange\<close>

text \<open>
  \<open>strings.TrimSpace\<close> removes leading and trailing white space as defined by
  Unicode. On the bytes of a string these are the six ASCII characters
  \<open>\t \n \v \f \r\<close> and space, and the UTF-8 encodings of U+0085, U+00A0, U+1680,
  U+2000..U+200A, U+2028, U+2029, U+202F, U+205F and U+3000.
  \<open>space_width s\<close> is the number of bytes of the white-space character \<open>s\<close> starts
  with (0 when it starts with none); \<open>space_width_end\<close> is the same for the end
  of the string, given the reversed string.
\<close>

definition asciiSpace :: "char \<Rightarrow> bool" where
  "asciiSpace c = (c = CHR 0x09 \<or> c = CHR 0x0A \<or> c = CHR 0x0B \<or> c = CHR 0x0C
     \<or> c = CHR 0x0D \<or> c = CHR 0x20)"

definition in_bytes :: "nat \<Rightarrow> nat \<Rightarrow> char \<Rightarrow> bool" where
  "in_bytes lo hi c = (lo \<le> (of_char c :: nat) \<and> (of_char c :: nat) \<le> hi)"

definition is_space2 :: "char \<Rightarrow> char \<Rightarrow> bool" where
  "is_space2 a b = (a = CHR 0xC2 \<and> (b = CHR 0x85 \<or> b = CHR 0xA0))"

definition is_space3 :: "char \<Rightarrow> char \<Rightarrow> char \<Rightarrow> bool" where
  "is_space3 a b c =
     ((a = CHR 0xE1 \<and> b = CHR 0x9A \<and> c = CHR 0x80)
      \<or> (a = CHR 0xE2 \<and> b = CHR 0x80
          \<and> (in_bytes 0x80 0x8A c \<or> c = CHR 0xA8 \<or> c = CHR 0xA9 \<or> c = CHR 0xAF))
      \<or> (a = CHR 0xE2 \<and> b = CHR 0x81 \<and> c = CHR 0x9F)
      \<or> (a = CHR 0xE3 \<and> b = CHR 0x80 \<and> c = CHR 0x80))"

fun space_width :: "string \<Rightarrow> nat" where
  "space_width [] = 0"
| "space_width [a] = (if asciiSpace a then 1 else 0)"
| "space_width [a, b] = (if asciiSpace a then 1 else if is_space2 a b then 2 else 0)"
| "space_width (a # b # c # _) =
     (if asciiSpace a then 1 else if is_space2 a b then 2
      else if is_space3 a b c then 3 else 0)"

fun space_width_end :: "string \<Rightarrow> nat" where
  "space_width_end [] = 0"
| "space_width_end [c] = (if asciiSpace c then 1 else 0)"
| "space_width_end [c, b] = (if asciiSpace c then 1 else if is_space2 b c then 2 else 0)"
| "space_width_end (c # b # a # _) =
     (if asciiSpace c then 1 else if is_space2 b c then 2
      else if is_space3 a b c then 3 else 0)"

lemma space_width_le: "space_width s \<le> length s"
  by (induction s rule: space_width.induct) auto

lemma space_width_end_le: "space_width_end s \<le> length s"
  by (induction s rule: space_width_end.induct) auto

function TrimLeftSpace :: "string \<Rightarrow> string" where
  "TrimLeftSpace s =
     (if space_width s = 0 then s else TrimLeftSpace (drop (space_width s) s))"
  by pat_completeness auto
termination
proof (relation "measure length")
  show "wf (measure length)" by simp
next
  fix s :: string
  assume "space_width s \<noteq> 0"
  moreover have "space_width s \<le> length s" by (rule space_width_le)
  ultimately show "(drop (space_width s) s, s) \<in> measure length" by simp
qed

declare TrimLeftSpace.simps [simp del]

function TrimRightSpace_rev :: "string \<Rightarrow> string" where
  "TrimRightSpace_rev s =
     (if space_width_end s = 0 then s else TrimRightSpace_rev (drop (space_width_end s) s))"
  by pat_completeness auto
termination
proof (relation "measure length")
  show "wf (measure length)" by simp
next
  fix s :: string
  assume "space_width_end s \<noteq> 0"
  moreover have "space_width_end s \<le> length s" by (rule space_width_end_le)
  ultimately show "(drop (space_width_end s) s, s) \<in> measure length" by simp
qed

declare TrimRightSpace_rev.simps [simp del]

definition TrimSpace :: "string \<Rightarrow> string" where
  "TrimSpace s = rev (TrimRightSpace_rev (rev (TrimLeftSpace s)))"

text \<open>\<open>strings.TrimPrefix\<close>: the string without the prefix, or the string itself.\<close>

definition TrimPrefix :: "string \<Rightarrow> string \<Rightarrow> string" where
  "TrimPrefix s p = (if prefix p s then drop (length p) s else s)"

text \<open>
  \<open>strings.Index\<close>: the index of the first occurrence of \<open>sub\<close> in \<open>s\<close>, or \<open>-1\<close>;
  \<open>strings.Contains\<close> is \<open>Index s sub \<ge> 0\<close>.
\<close>

fun Index :: "string \<Rightarrow> string \<Rightarrow> int" where
  "Index [] sub = (if sub = [] then 0 else -1)"
| "Index (c # cs) sub =
     (if prefix sub (c # cs) then 0
      else (let i = Index cs sub in if i < 0 then -1 else i + 1))"

definition Contains :: "string \<Rightarrow> string \<Rightarrow> bool" where
  "Contains s sub = (0 \<le> Index s sub)"

text \<open>
  \<open>strconv.ParseInt(s, 10, 64)\<close>. The error is a \<open>*NumError\<close> whose \<open>Err\<close> field
  is \<open>ErrSyntax\<close> or \<open>ErrRange\<close> and whose \<open>Num\<close> field is the input.
  \<open>ParseUint_loop\<close> is the digit loop of \<open>ParseUint\<close> with base 10 and 64 bits: it
  stops at the first byte that is no digit, or at the first digit with which the
  value no longer fits 64 bits. The unsigned value is an \<open>int\<close> here, and the
  checks keep it below \<open>2 ^ 64\<close>.
\<close>

datatype num_error = ErrSyntax string | ErrRange string

definition is_digit :: "char \<Rightarrow> bool" where
  "is_digit c = in_bytes 48 57 c"

definition digit_val :: "char \<Rightarrow> int" where
  "digit_val c = int (of_char c) - 48"

datatype uint_result = UintOk int | UintSyntax | UintRange

fun ParseUint_loop :: "string \<Rightarrow> int \<Rightarrow> uint_result" where
  "ParseUint_loop [] n = UintOk n"
| "ParseUint_loop (c # cs) n =
     (if \<not> is_digit c then UintSyntax
      else if n \<ge> (2 ^ 64 - 1) div 10 + 1 then UintRange
      else if n * 10 + digit_val c > 2 ^ 64 - 1 then UintRange
      else ParseUint_loop cs (n * 10 + digit_val c))"

definition ParseUint :: "string \<Rightarrow> uint_result" where
  "ParseUint s = (if s = [] then UintSyntax else ParseUint_loop s 0)"

definition ParseInt :: "string \<Rightarrow> num_error + int64" where
  "ParseInt s =
     (if s = [] then Inl (ErrSyntax s)
      else
        let neg = (hd s = CHR ''-'');
            s1 = (if hd s = CHR ''+'' \<or> hd s = CHR ''-'' then tl s else s)
        in case ParseUint s1 of
             UintSyntax \<Rightarrow> Inl (ErrSyntax s)
           | UintRange \<Rightarrow> Inl (ErrRange s)
           | UintOk un \<Rightarrow>
               if \<not> neg \<and> un \<ge> 2 ^ 63 then Inl (ErrRange s)
               else if neg \<and> un > 2 ^ 63 then Inl (ErrRange s)
               else Inr (if neg then - of_int un else of_int un))"

subsection \<open>Errors\<close>

text \<open>
  Every error value the command can return. The constructors whose name starts with
  \<open>Range\<close> are the errors of \<open>parseRange\<close>, made by \<open>errs.New\<close> with a message
  that starts with \<open>invalid range\<close>; \<open>RangeBadNumber\<close> wraps the conversion error
  (the operand of \<open>%w\<close>). \<open>External n\<close> is an error returned by a
  collaborator (file system, handle, iterator), identified by a number.
  \<open>Wrapped e\<close> is the errs error that \<open>errs.Wrap\<close> makes of an error \<open>e\<close> that is not
  one, \<open>Combined es\<close> the error an \<open>errs.Group\<close> with more than one member returns.
\<close>

datatype error =
    RangeNotSingle
  | RangeNoDash
  | RangeBadNumber num_error
  | RangeEmpty
  | RangeNegativeStart string
  | RangeStartAfterEnd int64 int64
  | RecursiveWithRange
  | RecursiveStd
  | NoBaseName
  | External nat
  | Wrapped error
  | Combined "error list"

text \<open>The error itself and every error it wraps or combines.\<close>

fun error_parts :: "error \<Rightarrow> error list" where
  "error_parts (Wrapped e) = Wrapped e # error_parts e"
| "error_parts (Combined es) = Combined es # concat (map error_parts es)"
| "error_parts e = [e]"

text \<open>
  \<open>errs.Wrap\<close> returns nil for nil and an errs error (one made by \<open>errs.New\<close> or by
  \<open>errs.Wrap\<close>) as it is; any other error, also the combination of a group, it wraps.
\<close>

fun is_errs :: "error \<Rightarrow> bool" where
  "is_errs (External n) = False"
| "is_errs (Combined es) = False"
| "is_errs e = True"

definition Wrap :: "error option \<Rightarrow> error option" where
  "Wrap e = (case e of None \<Rightarrow> None
             | Some x \<Rightarrow> Some (if is_errs x then x else Wrapped x))"

text \<open>\<open>errs.Group\<close>: \<open>Add\<close> keeps the non-nil errors, \<open>Err\<close> returns nil for an empty
  group, the error itself for a group of one, and the combination otherwise.\<close>

definition group_Add :: "error list \<Rightarrow> error option \<Rightarrow> error list" where
  "group_Add es e = (case e of None \<Rightarrow> es | Some x \<Rightarrow> es @ [x])"

definition group_Err :: "error list \<Rightarrow> error option" where
  "group_Err es = (case es of [] \<Rightarrow> None | [e] \<Rightarrow> Some e | _ \<Rightarrow> Some (Combined es))"

subsection \<open>parseRange\<close>

definition parseRange :: "string \<Rightarrow> error + (int64 \<times> int64)" where
  "parseRange r0 =
     (let r = TrimPrefix (TrimSpace r0) ''bytes='' in
      if r = [] then Inr (0, -1)
      else if Contains r '','' then Inl RangeNotSingle
      else
        let idx = Index r ''-'' in
        if idx < 0 then Inl RangeNoDash
        else
          let start = TrimSpace (take (nat idx) r);
              end = TrimSpace (drop (nat idx + 1) r)
          in case (if start \<noteq> [] then ParseInt start else Inr 0) of
               Inl e \<Rightarrow> Inl (RangeBadNumber e)
             | Inr starti \<Rightarrow>
                (case (if end \<noteq> [] then ParseInt end else Inr 0) of
                   Inl e \<Rightarrow> Inl (RangeBadNumber e)
                 | Inr endi \<Rightarrow>
                    if start = [] \<and> end = [] then Inl RangeEmpty
                    else if start = [] then Inr (- endi, -1)
                    else if end = [] then Inr (starti, -1)
                    else if starti <s 0 then Inl (RangeNegativeStart start)
                    else if endi <s starti then Inl (RangeStartAfterEnd starti endi)
                    else Inr (starti, endi - starti + 1)))"

text \<open>
  The two fields \<open>parseRange\<close> converts, as it computes them before the conversion:
  \<open>None\<close> when it returns before splitting (an empty range, a comma, no dash).
\<close>

definition range_fields :: "string \<Rightarrow> (string \<times> string) option" where
  "range_fields r0 =
     (let r = TrimPrefix (TrimSpace r0) ''bytes='' in
      if r = [] \<or> Contains r '','' \<or> Index r ''-'' < 0 then None
      else Some (TrimSpace (take (nat (Index r ''-'')) r),
                 TrimSpace (drop (nat (Index r ''-'') + 1) r)))"

text \<open>
  What \<open>parseRange\<close> makes of the two fields: the conversions and the final \<open>switch\<close>.
\<close>

definition range_result :: "string \<Rightarrow> string \<Rightarrow> error + (int64 \<times> int64)" where
  "range_result start end =
     (case (if start \<noteq> [] then ParseInt start else Inr 0) of
        Inl e \<Rightarrow> Inl (RangeBadNumber e)
      | Inr starti \<Rightarrow>
         (case (if end \<noteq> [] then ParseInt end else Inr 0) of
            Inl e \<Rightarrow> Inl (RangeBadNumber e)
          | Inr endi \<Rightarrow>
             if start = [] \<and> end = [] then Inl RangeEmpty
             else if start = [] then Inr (- endi, -1)
             else if end = [] then Inr (starti, -1)
             else if starti <s 0 then Inl (RangeNegativeStart start)
             else if endi <s starti then Inl (RangeStartAfterEnd starti endi)
             else Inr (starti, endi - starti + 1)))"

text \<open>
  The decimal numeral of a natural number, to state what ranges \<open>N-M\<close> yield.
\<close>

function dec :: "nat \<Rightarrow> string" where
  "dec n = (if n < 10 then [char_of (48 + n)] else dec (n div 10) @ [char_of (48 + n mod 10)])"
  by pat_completeness auto
termination
  by (relation "measure id") auto

declare dec.simps [simp del]

text \<open>An ASCII character that is no white space: \<open>TrimSpace\<close> stops at it.\<close>

definition plain :: "char \<Rightarrow> bool" where
  "plain c = ((of_char c :: nat) < 128 \<and> \<not> asciiSpace c)"

subsection \<open>Locations\<close>

text \<open>
  Modelled from the spec: the package \<open>cmd/uplinkng/ulloc\<close> (type \<open>Location\<close> and its
  methods \<open>Std\<close>, \<open>Local\<close>, \<open>Remote\<close>, \<open>Directoryish\<close>, \<open>AsDirectoryish\<close>,
  \<open>Undirectoryish\<close>, \<open>AppendKey\<close>) is not among the sources. The spec: a location is
  one of Local(path), Remote(bucket, key), Standard-stream, and is directory-ish by
  trailing-separator semantics; the resolver appends a suffix as a path segment and
  strips any trailing separator. The comment in \<open>joinDestWith\<close> says the same of
  \<open>Undirectoryish\<close>: it removes any trailing slashes. The separator is \<open>/\<close>.
\<close>

datatype location = LocLocal string | LocRemote string string | LocStd

definition Std :: "location \<Rightarrow> bool" where
  "Std l = (l = LocStd)"

definition Local :: "location \<Rightarrow> bool" where
  "Local l = (case l of LocLocal _ \<Rightarrow> True | _ \<Rightarrow> False)"

definition Remote :: "location \<Rightarrow> bool" where
  "Remote l = (case l of LocRemote _ _ \<Rightarrow> True | _ \<Rightarrow> False)"

definition ends_with_sep :: "string \<Rightarrow> bool" where
  "ends_with_sep p = (p \<noteq> [] \<and> last p = CHR ''/'')"

definition strip_seps :: "string \<Rightarrow> string" where
  "strip_seps p = rev (dropWhile (\<lambda>c. c = CHR ''/'') (rev p))"

definition Directoryish :: "location \<Rightarrow> bool" where
  "Directoryish l =
     (case l of LocLocal p \<Rightarrow> ends_with_sep p | LocRemote _ k \<Rightarrow> ends_with_sep k
      | LocStd \<Rightarrow> False)"

definition AsDirectoryish :: "location \<Rightarrow> location" where
  "AsDirectoryish l =
     (if Directoryish l then l
      else case l of LocLocal p \<Rightarrow> LocLocal (p @ ''/'')
           | LocRemote b k \<Rightarrow> LocRemote b (k @ ''/'') | LocStd \<Rightarrow> LocStd)"

definition Undirectoryish :: "location \<Rightarrow> location" where
  "Undirectoryish l =
     (case l of LocLocal p \<Rightarrow> LocLocal (strip_seps p)
      | LocRemote b k \<Rightarrow> LocRemote b (strip_seps k) | LocStd \<Rightarrow> LocStd)"

definition AppendKey :: "location \<Rightarrow> string \<Rightarrow> location" where
  "AppendKey l key =
     (case l of LocLocal p \<Rightarrow> LocLocal (p @ key)
      | LocRemote b k \<Rightarrow> LocRemote b (k @ key) | LocStd \<Rightarrow> LocStd)"

subsection \<open>copyVerb and joinDestWith\<close>

definition copyVerb :: "location \<Rightarrow> location \<Rightarrow> string" where
  "copyVerb source dest =
     (if Remote dest then ''upload'' else if Remote source then ''download'' else ''copy'')"

definition joinDestWith :: "location \<Rightarrow> string \<Rightarrow> location" where
  "joinDestWith dest sfx =
     (let dest1 = AppendKey dest sfx in
      if Local dest1 \<and> Directoryish dest1 then Undirectoryish dest1 else dest1)"

subsection \<open>Collaborators and observable events\<close>

text \<open>
  The file system, the handles, the listing iterator and the limiters are interfaces
  whose implementations are outside the command. A run is determined by what they
  answer, so the model takes their answers as an environment and returns, next to the
  result, the list of calls the command made on them, in order.
  The progress bar only wraps the writer and is left out.
\<close>

datatype event =
    EvOpenFilesystem string
  | EvFsClose
  | EvIsLocalDir location
  | EvList location
  | EvAnnounce string location location
  | EvFailed string error
  | EvOpen location
  | EvCreate location
  | EvSetOffset int64
  | EvSrcNextPart nat int64
  | EvDstNextPart nat int64
  | EvIoCopy nat
  | EvPartCommit nat
  | EvPartAbort nat
  | EvPartClose nat
  | EvReaderError nat
  | EvWriterError nat
  | EvDstCommit
  | EvDstAbort
  | EvSrcClose

text \<open>
  \<open>src_next\<close>: what \<open>src.NextPart\<close> answers in iteration \<open>i\<close> (a part, an error that
  is \<open>io.EOF\<close>, another error); \<open>dst_next\<close>: the error of \<open>dst.NextPart\<close>;
  \<open>go_ok\<close>: whether \<open>limiter.Go\<close> accepts the task (it refuses, without running
  it, when the context is cancelled); \<open>copy_err\<close> and \<open>commit_err\<close>: the errors
  of \<open>io.Copy\<close> and of the part's \<open>Commit\<close> in the task.
\<close>

datatype src_part = SrcPart | SrcEOF | SrcFail error

record part_env =
  src_next :: src_part
  dst_next :: "error option"
  go_ok :: bool
  copy_err :: "error option"
  commit_err :: "error option"

record copy_env =
  set_offset_err :: "error option"
  parts :: "nat \<Rightarrow> part_env"
  dst_commit_err :: "error option"

subsection \<open>parallelCopy\<close>

text \<open>
  The task submitted for part \<open>i\<close>: copy, commit the part when the copy succeeded,
  then the deferred \<open>wh.Abort\<close> and \<open>rh.Close\<close>; its error goes to the group.
  An accepted task runs to completion before \<open>parallelCopy\<close> returns and touches
  only its own two part handles and the error group, so the model runs it at the
  point of submission: the order of events of different tasks, and of the errors in
  the group, is that of one schedule; how often each call is made on each handle
  is the same in all.
\<close>

definition part_task :: "part_env \<Rightarrow> nat \<Rightarrow> error option \<times> event list" where
  "part_task pe i =
     (case copy_err pe of
        Some e \<Rightarrow> (Some e, [EvIoCopy i, EvPartAbort i, EvPartClose i])
      | None \<Rightarrow> (commit_err pe, [EvIoCopy i, EvPartCommit i, EvPartAbort i, EvPartClose i]))"

definition next_chunk :: "int64 \<Rightarrow> int64 \<Rightarrow> int64" where
  "next_chunk chunkSize length' = (if 0 <s length' \<and> length' <s chunkSize then length' else chunkSize)"

datatype loop_exit = LoopDone | LoopReturn error

text \<open>
  The loop of \<open>parallelCopy\<close>, from iteration \<open>i\<close> with \<open>length\<close> remaining and
  the error group \<open>es\<close>. With a negative length or a chunk size below 1 it runs
  until the source ends, so it takes fuel, one unit for each iteration: \<open>None\<close> is a
  loop still running when the fuel is used up. The result is how the loop was left
  (\<open>LoopDone\<close>: the condition failed or a \<open>break\<close>; \<open>LoopReturn\<close>: a \<open>return\<close>),
  the remaining length, the error group and the events.
\<close>

fun copy_loop ::
  "nat \<Rightarrow> (nat \<Rightarrow> part_env) \<Rightarrow> int64 \<Rightarrow> nat \<Rightarrow> int64 \<Rightarrow> error list
     \<Rightarrow> (loop_exit \<times> int64 \<times> error list \<times> event list) option" where
  "copy_loop 0 ps chunkSize i length' es =
     (if length' = 0 then Some (LoopDone, length', es, []) else None)"
| "copy_loop (Suc fuel) ps chunkSize i length' es =
     (if length' = 0 then Some (LoopDone, length', es, [])
      else
        let chunk = next_chunk chunkSize length';
            length1 = length' - chunk
        in case src_next (ps i) of
             SrcEOF \<Rightarrow> Some (LoopDone, length1, es, [EvSrcNextPart i chunk])
           | SrcFail e \<Rightarrow>
               Some (LoopReturn e, length1, es, [EvSrcNextPart i chunk, EvReaderError i])
           | SrcPart \<Rightarrow>
              (case dst_next (ps i) of
                 Some e \<Rightarrow>
                   Some (LoopReturn e, length1, es,
                     [EvSrcNextPart i chunk, EvDstNextPart i chunk, EvPartClose i,
                      EvWriterError i])
               | None \<Rightarrow>
                   if \<not> go_ok (ps i)
                   then Some (LoopDone, length1, es,
                          [EvSrcNextPart i chunk, EvDstNextPart i chunk])
                   else
                     (case copy_loop fuel ps chunkSize (Suc i) length1
                             (group_Add es (fst (part_task (ps i) i))) of
                        None \<Rightarrow> None
                      | Some (ex, l, es1, evs) \<Rightarrow>
                          Some (ex, l, es1,
                            [EvSrcNextPart i chunk, EvDstNextPart i chunk]
                              @ snd (part_task (ps i) i) @ evs))))"

text \<open>
  \<open>parallelCopy\<close>. A failing \<open>SetOffset\<close> returns before the deferred calls are
  registered; every later exit runs them: \<open>dst.Abort\<close>, then \<open>src.Close\<close>.
  The parallelism \<open>p\<close> only sizes the limiter.
\<close>

definition parallelCopy ::
  "nat \<Rightarrow> copy_env \<Rightarrow> int \<Rightarrow> int64 \<Rightarrow> int64 \<Rightarrow> int64 \<Rightarrow> (error option \<times> event list) option" where
  "parallelCopy fuel env p chunkSize offset length' =
     (let seek = (if offset \<noteq> 0 then [EvSetOffset offset] else []) in
      if offset \<noteq> 0 \<and> set_offset_err env \<noteq> None then Some (set_offset_err env, seek)
      else
        case copy_loop fuel (parts env) chunkSize 0 length' [] of
          None \<Rightarrow> None
        | Some (LoopReturn e, l, es, evs) \<Rightarrow>
            Some (Some e, seek @ evs @ [EvDstAbort, EvSrcClose])
        | Some (LoopDone, l, es, evs) \<Rightarrow>
            Some (group_Err (group_Add es (dst_commit_err env)),
                  seek @ evs @ [EvDstCommit, EvDstAbort, EvSrcClose]))"


subsection \<open>The command\<close>

record cmdCp =
  access :: string
  recursive :: bool
  transfers :: int
  dryrun :: bool
  progress :: bool
  byteRange :: string
  parallelism :: int
  parallelismChunkSize :: int64
  source :: location
  dest :: location

text \<open>
  The transform of the flag \<open>parallelism-chunk-size\<close> in \<open>Setup\<close>. \<open>memory.MB\<close>
  (package \<open>storj.io/common/memory\<close>) is \<open>1e6\<close>.
\<close>

definition MB :: int64 where
  "MB = 1000000"

datatype flag_error = ChunkSizeTooSmall

definition chunkSizeTransform :: "int64 \<Rightarrow> flag_error + int64" where
  "chunkSizeTransform n = (if n <s 1 * MB then Inl ChunkSizeTooSmall else Inr n)"

text \<open>
  The file system: \<open>list_result\<close> is what \<open>fs.List\<close> answers for a source, an error
  or an iterator; the iterator yields \<open>items\<close> and \<open>iter_err\<close> is what its \<open>Err\<close>
  answers after the loop. \<open>file_go_ok k\<close>: whether the limiter of \<open>copyRecursive\<close>
  accepts the task of the \<open>k\<close>-th entry. \<open>base_of\<close> and \<open>relative_to\<close> are the
  methods \<open>Base\<close> and \<open>RelativeTo\<close> of \<open>Location\<close>, which are not among the sources.
\<close>

record listing =
  items :: "location list"
  iter_err :: "error option"

record fs_env =
  open_filesystem_err :: "error option"
  is_local_dir :: "location \<Rightarrow> bool"
  list_result :: "location \<Rightarrow> error + listing"
  open_err :: "location \<Rightarrow> error option"
  create_err :: "location \<Rightarrow> error option"
  copy_env_of :: "location \<Rightarrow> location \<Rightarrow> copy_env"
  file_go_ok :: "nat \<Rightarrow> bool"
  base_of :: "location \<Rightarrow> string \<times> bool"
  relative_to :: "location \<Rightarrow> location \<Rightarrow> error + string"

text \<open>
  \<open>copyFile\<close>. The deferred \<open>mrh.Close\<close> and \<open>mwh.Abort\<close> are calls on the handles
  \<open>parallelCopy\<close> names \<open>src\<close> and \<open>dst\<close>, hence the events \<open>EvSrcClose\<close> and
  \<open>EvDstAbort\<close>.
\<close>

definition copyFile ::
  "nat \<Rightarrow> fs_env \<Rightarrow> cmdCp \<Rightarrow> location \<Rightarrow> location \<Rightarrow> bool
     \<Rightarrow> (error option \<times> event list) option" where
  "copyFile fuel fs c source' dest' progress' =
     (if dryrun c then Some (None, [])
      else
        case parseRange (byteRange c) of
          Inl e \<Rightarrow> Some (Wrap (Some e), [])
        | Inr (offset, length') \<Rightarrow>
           (case open_err fs source' of
              Some e \<Rightarrow> Some (Some e, [EvOpen source'])
            | None \<Rightarrow>
               (case create_err fs dest' of
                  Some e \<Rightarrow> Some (Some e, [EvOpen source', EvCreate dest', EvSrcClose])
                | None \<Rightarrow>
                   (case parallelCopy fuel (copy_env_of fs source' dest') (parallelism c)
                           (parallelismChunkSize c) offset length' of
                      None \<Rightarrow> None
                    | Some (r, evs) \<Rightarrow>
                        Some (Wrap r,
                          [EvOpen source', EvCreate dest'] @ evs @ [EvDstAbort, EvSrcClose])))))"

text \<open>
  The loop of \<open>copyRecursive\<close> over the entries the iterator yields, from the
  \<open>k\<close>-th on. As in \<open>parallelCopy\<close>, an accepted task runs where it is submitted.
\<close>

fun copy_entries ::
  "nat \<Rightarrow> fs_env \<Rightarrow> cmdCp \<Rightarrow> nat \<Rightarrow> location list \<Rightarrow> error list
     \<Rightarrow> (loop_exit \<times> error list \<times> event list) option" where
  "copy_entries fuel fs c k [] es = Some (LoopDone, es, [])"
| "copy_entries fuel fs c k (item # rest) es =
     (case relative_to fs (source c) item of
        Inl e \<Rightarrow> Some (LoopReturn e, es, [])
      | Inr rel \<Rightarrow>
          let dest' = joinDestWith (dest c) rel in
          if \<not> file_go_ok fs k then Some (LoopDone, es, [])
          else
            (case copyFile fuel fs c item dest' False of
               None \<Rightarrow> None
             | Some (r, evs) \<Rightarrow>
                 let evs1 = [EvAnnounce (copyVerb item dest') item dest'] @ evs
                       @ (case r of None \<Rightarrow> []
                          | Some e \<Rightarrow> [EvFailed (copyVerb item dest') e])
                 in (case copy_entries fuel fs c (Suc k) rest (group_Add es r) of
                       None \<Rightarrow> None
                     | Some (ex, es1, evs2) \<Rightarrow> Some (ex, es1, evs1 @ evs2))))"

definition copyRecursive ::
  "nat \<Rightarrow> fs_env \<Rightarrow> cmdCp \<Rightarrow> (error option \<times> event list) option" where
  "copyRecursive fuel fs c =
     (if Std (source c) \<or> Std (dest c) then Some (Some RecursiveStd, [])
      else
        case list_result fs (source c) of
          Inl e \<Rightarrow> Some (Some e, [EvList (source c)])
        | Inr iter \<Rightarrow>
           (case copy_entries fuel fs c 0 (items iter) [] of
              None \<Rightarrow> None
            | Some (LoopReturn e, es, evs) \<Rightarrow> Some (Some e, EvList (source c) # evs)
            | Some (LoopDone, es, evs) \<Rightarrow>
               (case iter_err iter of
                  Some e \<Rightarrow> Some (Wrap (Some e), EvList (source c) # evs)
                | None \<Rightarrow>
                    if es \<noteq> [] then Some (group_Err es, EvList (source c) # evs)
                    else Some (None, EvList (source c) # evs))))"

definition Execute ::
  "nat \<Rightarrow> fs_env \<Rightarrow> cmdCp \<Rightarrow> (error option \<times> event list) option" where
  "Execute fuel fs c =
     (case open_filesystem_err fs of
        Some e \<Rightarrow> Some (Some e, [EvOpenFilesystem (access c)])
      | None \<Rightarrow>
         let source1 = (if is_local_dir fs (source c) then AsDirectoryish (source c)
                        else source c);
             dest1 = (if recursive c \<or> is_local_dir fs (dest c) then AsDirectoryish (dest c)
                      else dest c);
             c1 = c\<lparr>source := source1, dest := dest1\<rparr>;
             pre = [EvOpenFilesystem (access c), EvIsLocalDir (source c)]
                     @ (if recursive c then [] else [EvIsLocalDir (dest c)])
         in
         if recursive c then
           (if byteRange c \<noteq> [] then Some (Some RecursiveWithRange, pre @ [EvFsClose])
            else
              case copyRecursive fuel fs c1 of
                None \<Rightarrow> None
              | Some (r, evs) \<Rightarrow> Some (r, pre @ evs @ [EvFsClose]))
         else
           let (base, ok) = (if Directoryish dest1 \<and> \<not> Std source1
                             then base_of fs (Undirectoryish source1) else ([], True))
           in
           if \<not> ok then Some (Some NoBaseName, pre @ [EvFsClose])
           else
             let dest2 = joinDestWith dest1 base;
                 c2 = c1\<lparr>dest := dest2\<rparr>;
                 ann = (if \<not> Std source1 \<and> \<not> Std dest2
                        then [EvAnnounce (copyVerb source1 dest2) source1 dest2] else [])
             in case copyFile fuel fs c2 source1 dest2 (progress c) of
                  None \<Rightarrow> None
                | Some (r, evs) \<Rightarrow> Some (r, pre @ ann @ evs @ [EvFsClose]))"

subsection \<open>Events of a transfer\<close>

text \<open>
  The events that list, open, create or transfer: everything but opening and closing
  the file system, asking whether a location is a local directory, and printing.
\<close>

fun transfer_event :: "event \<Rightarrow> bool" where
  "transfer_event (EvOpenFilesystem _) = False"
| "transfer_event EvFsClose = False"
| "transfer_event (EvIsLocalDir _) = False"
| "transfer_event (EvAnnounce _ _ _) = False"
| "transfer_event (EvFailed _ _) = False"
| "transfer_event _ = True"

subsection \<open>Chunk sizes\<close>

text \<open>The sizes passed to \<open>src.NextPart\<close>, and those passed to \<open>dst.NextPart\<close>, in order.\<close>

fun requested :: "event list \<Rightarrow> int64 list" where
  "requested [] = []"
| "requested (EvSrcNextPart i chunk # evs) = chunk # requested evs"
| "requested (ev # evs) = requested evs"

fun dst_requested :: "event list \<Rightarrow> int64 list" where
  "dst_requested [] = []"
| "dst_requested (EvDstNextPart i chunk # evs) = chunk # dst_requested evs"
| "dst_requested (ev # evs) = dst_requested evs"

text \<open>
  The chunk sizes as the spec words them, on the integers: each chunk is the minimum
  of the chunk size and what remains, until nothing remains.
\<close>

function spec_chunks :: "int \<Rightarrow> int \<Rightarrow> int list" where
  "spec_chunks chunkSize remaining =
     (if remaining \<le> 0 \<or> chunkSize \<le> 0 then []
      else min chunkSize remaining
             # spec_chunks chunkSize (remaining - min chunkSize remaining))"
  by pat_completeness auto
termination
  by (relation "measure (\<lambda>(c, r). nat r)") auto

declare spec_chunks.simps [simp del]

text \<open>A part that is acquired on both sides and whose task is accepted.\<close>

definition proceeds :: "part_env \<Rightarrow> bool" where
  "proceeds pe = (src_next pe = SrcPart \<and> dst_next pe = None \<and> go_ok pe)"

text \<open>
  From iteration \<open>i\<close> on, the first part that does not proceed is the one of
  iteration \<open>i + k\<close>: the source ends or fails there, the destination fails, or the
  task is refused. \<open>stop_exit\<close> is how the loop is left at such a part.
\<close>

definition stops_at :: "(nat \<Rightarrow> part_env) \<Rightarrow> nat \<Rightarrow> nat \<Rightarrow> bool" where
  "stops_at ps i k = ((\<forall>j < k. proceeds (ps (i + j))) \<and> \<not> proceeds (ps (i + k)))"

definition stop_exit :: "part_env \<Rightarrow> loop_exit" where
  "stop_exit pe =
     (case src_next pe of
        SrcEOF \<Rightarrow> LoopDone
      | SrcFail e \<Rightarrow> LoopReturn e
      | SrcPart \<Rightarrow> (case dst_next pe of Some e \<Rightarrow> LoopReturn e | None \<Rightarrow> LoopDone))"

text \<open>
  Every source of the file system ends, fails or has a task refused within \<open>n\<close>
  parts; the errors printed as failed, in order.
\<close>

definition sources_end :: "nat \<Rightarrow> fs_env \<Rightarrow> bool" where
  "sources_end n fs = (\<forall>s d. \<exists>k < n. \<not> proceeds (parts (copy_env_of fs s d) k))"

fun failed_errors :: "event list \<Rightarrow> error list" where
  "failed_errors [] = []"
| "failed_errors (EvFailed verb e # evs) = e # failed_errors evs"
| "failed_errors (ev # evs) = failed_errors evs"

subsection \<open>Part handles\<close>

text \<open>
  The iteration an event on a part belongs to; the iterations in which
  \<open>src.NextPart\<close> and \<open>dst.NextPart\<close> were called; a part pair that was acquired and
  whose task the limiter refused.
\<close>

fun part_of :: "event \<Rightarrow> nat option" where
  "part_of (EvSrcNextPart i c) = Some i"
| "part_of (EvDstNextPart i c) = Some i"
| "part_of (EvIoCopy i) = Some i"
| "part_of (EvPartCommit i) = Some i"
| "part_of (EvPartAbort i) = Some i"
| "part_of (EvPartClose i) = Some i"
| "part_of (EvReaderError i) = Some i"
| "part_of (EvWriterError i) = Some i"
| "part_of ev = None"

fun src_calls :: "event list \<Rightarrow> nat list" where
  "src_calls [] = []"
| "src_calls (EvSrcNextPart i c # evs) = i # src_calls evs"
| "src_calls (ev # evs) = src_calls evs"

fun dst_calls :: "event list \<Rightarrow> nat list" where
  "dst_calls [] = []"
| "dst_calls (EvDstNextPart i c # evs) = i # dst_calls evs"
| "dst_calls (ev # evs) = dst_calls evs"

definition refused :: "part_env \<Rightarrow> bool" where
  "refused pe = (src_next pe = SrcPart \<and> dst_next pe = None \<and> \<not> go_ok pe)"

subsection \<open>Example runs\<close>

definition part_ok :: part_env where
  "part_ok = \<lparr>src_next = SrcPart, dst_next = None, go_ok = True, copy_err = None,
              commit_err = None\<rparr>"

definition part_eof :: part_env where
  "part_eof = \<lparr>src_next = SrcEOF, dst_next = None, go_ok = True, copy_err = None,
               commit_err = None\<rparr>"

definition one_part :: "nat \<Rightarrow> part_env" where
  "one_part i = (if i = 0 then part_ok else part_eof)"

definition three_parts :: "nat \<Rightarrow> part_env" where
  "three_parts i = (if i < 3 then part_ok else part_eof)"

definition all_eof :: "nat \<Rightarrow> part_env" where
  "all_eof i = part_eof"

text \<open>A source that never ends.\<close>

definition all_ok :: "nat \<Rightarrow> part_env" where
  "all_ok i = part_ok"

definition endless_copy_env :: copy_env where
  "endless_copy_env = \<lparr>set_offset_err = None, parts = all_ok, dst_commit_err = None\<rparr>"

definition example_copy_env :: copy_env where
  "example_copy_env = \<lparr>set_offset_err = None, parts = one_part, dst_commit_err = None\<rparr>"

definition no_listing :: "location \<Rightarrow> error + listing" where
  "no_listing l = Inr \<lparr>items = [], iter_err = None\<rparr>"

text \<open>A run whose context is cancelled: the limiter refuses every task.\<close>

definition part_refused :: part_env where
  "part_refused = \<lparr>src_next = SrcPart, dst_next = None, go_ok = False, copy_err = None,
                   commit_err = None\<rparr>"

definition all_refused :: "nat \<Rightarrow> part_env" where
  "all_refused i = part_refused"

definition cancelled_copy_env :: copy_env where
  "cancelled_copy_env =
     \<lparr>set_offset_err = None, parts = all_refused, dst_commit_err = Some (External 7)\<rparr>"

text \<open>
  A recursive copy of one entry: the file cannot be opened (error 1) and the
  iterator ends with an error (error 2). \<open>clean_fs\<close> is the same file system with an
  iterator that ends without error.
\<close>

definition one_entry :: "location \<Rightarrow> error + listing" where
  "one_entry l = Inr \<lparr>items = [LocLocal ''a/1''], iter_err = Some (External 2)\<rparr>"

definition no_open :: "location \<Rightarrow> error option" where
  "no_open l = Some (External 1)"

definition always_none :: "location \<Rightarrow> error option" where
  "always_none l = None"

definition never_dir :: "location \<Rightarrow> bool" where
  "never_dir l = False"

definition every_env :: "location \<Rightarrow> location \<Rightarrow> copy_env" where
  "every_env s d = \<lparr>set_offset_err = None, parts = one_part, dst_commit_err = None\<rparr>"

definition always_go :: "nat \<Rightarrow> bool" where
  "always_go k = True"

definition no_base :: "location \<Rightarrow> string \<times> bool" where
  "no_base l = ([], False)"

definition rel_one :: "location \<Rightarrow> location \<Rightarrow> error + string" where
  "rel_one s l = Inr ''1''"

definition failing_fs :: fs_env where
  "failing_fs =
     \<lparr>open_filesystem_err = None, is_local_dir = never_dir, list_result = one_entry,
      open_err = no_open, create_err = always_none, copy_env_of = every_env,
      file_go_ok = always_go, base_of = no_base, relative_to = rel_one\<rparr>"

definition one_entry_clean :: "location \<Rightarrow> error + listing" where
  "one_entry_clean l = Inr \<lparr>items = [LocLocal ''a/1''], iter_err = None\<rparr>"

definition clean_fs :: fs_env where
  "clean_fs =
     \<lparr>open_filesystem_err = None, is_local_dir = never_dir, list_result = one_entry_clean,
      open_err = no_open, create_err = always_none, copy_env_of = every_env,
      file_go_ok = always_go, base_of = no_base, relative_to = rel_one\<rparr>"

definition tree_cmd :: cmdCp where
  "tree_cmd =
     \<lparr>access = [], recursive = True, transfers = 1, dryrun = False, progress = True,
      byteRange = [], parallelism = 4, parallelismChunkSize = 64 * MB,
      source = LocLocal ''a/'', dest = LocLocal ''d/''\<rparr>"

definition example_fs :: fs_env where
  "example_fs =
     \<lparr>open_filesystem_err = None, is_local_dir = (\<lambda>l. False), list_result = no_listing,
      open_err = (\<lambda>l. None), create_err = (\<lambda>l. None),
      copy_env_of = (\<lambda>s d. example_copy_env), file_go_ok = (\<lambda>k. True),
      base_of = (\<lambda>l. ([], False)), relative_to = (\<lambda>s l. Inl (External 0))\<rparr>"

definition example_cmd :: cmdCp where
  "example_cmd =
     \<lparr>access = [], recursive = False, transfers = 1, dryrun = False, progress = True,
      byteRange = [], parallelism = 4, parallelismChunkSize = 64 * MB,
      source = LocLocal ''a'', dest = LocLocal ''b''\<rparr>"

section \<open>Properties\<close>

subsection \<open>Range expressions\<close>

lemma plain_not_space2: "plain c \<Longrightarrow> \<not> is_space2 c b" "plain c \<Longrightarrow> \<not> is_space2 b c"
  by (auto simp: plain_def is_space2_def)

lemma plain_not_space3: "plain c \<Longrightarrow> \<not> is_space3 c a b" "plain c \<Longrightarrow> \<not> is_space3 a b c"
  by (auto simp: plain_def is_space3_def in_bytes_def)

lemma space_width_plain: "plain c \<Longrightarrow> space_width (c # cs) = 0"
proof (cases cs)
  case Nil
  assume "plain c" then show ?thesis using Nil by (simp add: plain_def)
next
  case (Cons b bs)
  assume p: "plain c"
  show ?thesis
  proof (cases bs)
    case Nil
    then show ?thesis using p Cons by (simp add: plain_not_space2) (simp add: plain_def)
  next
    case (Cons d ds)
    then show ?thesis using p \<open>cs = b # bs\<close>
      by (simp add: plain_not_space2 plain_not_space3) (simp add: plain_def)
  qed
qed

lemma space_width_end_plain: "plain c \<Longrightarrow> space_width_end (c # cs) = 0"
proof (cases cs)
  case Nil
  assume "plain c" then show ?thesis using Nil by (simp add: plain_def)
next
  case (Cons b bs)
  assume p: "plain c"
  show ?thesis
  proof (cases bs)
    case Nil
    then show ?thesis using p Cons by (simp add: plain_not_space2) (simp add: plain_def)
  next
    case (Cons d ds)
    then show ?thesis using p \<open>cs = b # bs\<close>
      by (simp add: plain_not_space2 plain_not_space3) (simp add: plain_def)
  qed
qed

lemma TrimLeftSpace_id: "space_width s = 0 \<Longrightarrow> TrimLeftSpace s = s"
  by (subst TrimLeftSpace.simps) simp

lemma TrimRightSpace_rev_id: "space_width_end s = 0 \<Longrightarrow> TrimRightSpace_rev s = s"
  by (subst TrimRightSpace_rev.simps) simp

lemma TrimSpace_plain:
  assumes "s \<noteq> []" "plain (hd s)" "plain (last s)"
  shows "TrimSpace s = s"
proof -
  obtain c cs where s: "s = c # cs" using assms(1) by (cases s) auto
  have "space_width (c # cs) = 0"
    using assms(2) s by (simp add: space_width_plain)
  then have l: "TrimLeftSpace s = s"
    using s by (simp add: TrimLeftSpace_id)
  have r: "rev s = last s # rev (butlast s)"
    using assms(1) by (metis append_butlast_last_id rev.simps(2) rev_append rev_rev_ident append.simps rev_singleton_conv)
  have "space_width_end (rev s) = 0"
    using assms(3) by (subst r) (simp add: space_width_end_plain)
  then have "TrimRightSpace_rev (rev s) = rev s"
    by (rule TrimRightSpace_rev_id)
  then show ?thesis by (simp add: TrimSpace_def l)
qed

lemma TrimSpace_all_plain: "s \<noteq> [] \<Longrightarrow> \<forall>c \<in> set s. plain c \<Longrightarrow> TrimSpace s = s"
  by (rule TrimSpace_plain) simp_all

lemma TrimSpace_Nil: "TrimSpace [] = []"
  by (simp add: TrimSpace_def TrimLeftSpace_id TrimRightSpace_rev_id)

lemma Index_single_notin: "c \<notin> set s \<Longrightarrow> Index s [c] = -1"
  by (induction s) (auto simp: Let_def)

lemma Index_single_append: "c \<notin> set a \<Longrightarrow> Index (a @ c # b) [c] = int (length a)"
  by (induction a) (auto simp: Let_def)


lemma is_digit_char_of: "d < 10 \<Longrightarrow> is_digit (char_of (48 + d :: nat))"
  by (simp add: is_digit_def in_bytes_def)

lemma digit_val_char_of: "d < 10 \<Longrightarrow> digit_val (char_of (48 + d :: nat)) = int d"
  by (simp add: digit_val_def)

lemma dec_digits: "\<forall>c \<in> set (dec n). is_digit c"
proof (induction n rule: dec.induct)
  case (1 n)
  show ?case
  proof (cases "n < 10")
    case True
    then show ?thesis by (subst dec.simps) (simp add: is_digit_char_of)
  next
    case False
    then show ?thesis using 1 by (subst dec.simps) (simp add: is_digit_char_of)
  qed
qed

lemma dec_nonempty: "dec n \<noteq> []"
  by (subst dec.simps) simp

lemma ParseUint_loop_append:
  "ParseUint_loop (xs @ ys) n =
     (case ParseUint_loop xs n of UintOk m \<Rightarrow> ParseUint_loop ys m | r \<Rightarrow> r)"
  by (induction xs arbitrary: n) auto

lemma ParseUint_loop_dec: "n < 2 ^ 64 \<Longrightarrow> ParseUint_loop (dec n) 0 = UintOk (int n)"
proof (induction n rule: dec.induct)
  case (1 n)
  show ?case
  proof (cases "n < 10")
    case True
    then show ?thesis
      by (subst dec.simps) (simp add: is_digit_char_of digit_val_char_of)
  next
    case False
    have q: "n div 10 < 2 ^ 64" using "1.prems" by simp
    have ih: "ParseUint_loop (dec (n div 10)) 0 = UintOk (int (n div 10))"
      using "1.IH" [OF False q] .
    have m: "n mod 10 < 10" by simp
    have a: "int (n div 10) * 10 + int (n mod 10) = int n"
      by (simp add: zmod_int zdiv_int)
    have b: "\<not> int (n div 10) \<ge> (2 ^ 64 - 1) div 10 + 1"
      using "1.prems" by simp
    have c: "\<not> int n > 2 ^ 64 - 1"
      using "1.prems" by simp
    show ?thesis
      using False ih b c
      by (subst dec.simps)
         (simp add: ParseUint_loop_append is_digit_char_of [OF m] digit_val_char_of [OF m] a
               del: of_nat_div of_nat_mod)
  qed
qed

lemma ParseInt_dec: "n < 2 ^ 63 \<Longrightarrow> ParseInt (dec n) = Inr (of_nat n)"
proof -
  assume n: "n < 2 ^ 63"
  then have n64: "n < 2 ^ 64" by simp
  obtain c cs where d: "dec n = c # cs" using dec_nonempty [of n] by (cases "dec n") auto
  have "is_digit c" using dec_digits [of n] d by simp
  then have s: "c \<noteq> CHR ''+''" "c \<noteq> CHR ''-''"
    by (auto simp: is_digit_def in_bytes_def)
  have "ParseUint (dec n) = UintOk (int n)"
    using ParseUint_loop_dec [OF n64] dec_nonempty by (simp add: ParseUint_def)
  then show ?thesis
    using s d n by (simp add: ParseInt_def Let_def)
qed


lemma sint_of_nat_small: "n < 2 ^ 63 \<Longrightarrow> sint (of_nat n :: int64) = int n"
proof -
  assume "n < 2 ^ 63"
  then have "int n < 2 ^ 63" by (metis of_nat_less_iff of_nat_numeral of_nat_power)
  then show ?thesis
    by (simp add: signed_of_nat signed_take_bit_int_eq_self)
qed

lemma is_digit_plain: "is_digit c \<Longrightarrow> plain c"
  by (auto simp: is_digit_def in_bytes_def plain_def asciiSpace_def)

lemma plain_dash: "plain CHR ''-''"
  by (simp add: plain_def asciiSpace_def)

lemma TrimSpace_digits: "\<forall>c \<in> set a. is_digit c \<Longrightarrow> TrimSpace a = a"
proof (cases "a = []")
  case True
  then show ?thesis by (simp add: TrimSpace_Nil)
next
  case False
  assume "\<forall>c \<in> set a. is_digit c"
  then have "\<forall>c \<in> set a. plain c"
    by (simp add: is_digit_plain)
  with False show ?thesis by (rule TrimSpace_all_plain)
qed

lemma range_fields_digits:
  assumes pre: "pre = [] \<or> pre = ''bytes=''"
    and a: "\<forall>c \<in> set a. is_digit c"
    and b: "\<forall>c \<in> set b. is_digit c"
  shows "range_fields (pre @ a @ ''-'' @ b) = Some (a, b)"
proof -
  let ?r = "a @ ''-'' @ b"
  have pl: "\<forall>c \<in> set ?r. plain c"
    using a b by (auto simp: is_digit_plain plain_dash)
  have hd_r: "hd ?r \<noteq> CHR ''b''"
    using a by (cases a) (auto simp: is_digit_def in_bytes_def)
  have ne: "?r \<noteq> []" by simp
  have "\<forall>c \<in> set pre. plain c"
  proof (cases "pre = []")
    case True
    then show ?thesis by simp
  next
    case False
    then have "pre = ''bytes=''" using pre by simp
    then show ?thesis by (simp add: plain_def asciiSpace_def)
  qed
  then have plp: "\<forall>c \<in> set (pre @ ?r). plain c"
    using pl by (simp add: ball_Un del: append_assoc)
  have "pre @ ?r \<noteq> []" by simp
  then have t1: "TrimSpace (pre @ ?r) = pre @ ?r"
    using plp by (rule TrimSpace_all_plain)
  have npre: "\<not> prefix ''bytes='' ?r"
    using hd_r by (cases ?r) (auto simp del: append_assoc)
  have t2: "TrimPrefix (pre @ ?r) ''bytes='' = ?r"
    using pre npre by (auto simp: TrimPrefix_def)
  have "CHR '','' \<notin> set ?r"
    using a b by (auto simp: is_digit_def in_bytes_def)
  then have c: "\<not> Contains ?r '',''"
    by (simp add: Contains_def Index_single_notin del: append_assoc)
  have "CHR ''-'' \<notin> set a"
    using a by (auto simp: is_digit_def in_bytes_def)
  then have i: "Index ?r ''-'' = int (length a)"
    using Index_single_append [of "CHR ''-''" a b] by simp
  have ta: "TrimSpace a = a" and tb: "TrimSpace b = b"
    using a b by (simp_all add: TrimSpace_digits)
  have st: "TrimSpace (take (nat (Index ?r ''-'')) ?r) = a"
    unfolding i using ta by simp
  have en: "TrimSpace (drop (nat (Index ?r ''-'') + 1) ?r) = b"
    unfolding i using tb by simp
  have ne': "(?r = []) = False" by simp
  have c': "Contains ?r '','' = False" using c by simp
  have idx: "(Index ?r ''-'' < 0) = False" unfolding i by simp
  show ?thesis
    unfolding range_fields_def Let_def t1 t2 st en ne' c' idx by simp
qed


lemma parseRange_via_fields:
  "range_fields r = Some (start, end) \<Longrightarrow> parseRange r = range_result start end"
proof -
  assume rf: "range_fields r = Some (start, end)"
  let ?r = "TrimPrefix (TrimSpace r) ''bytes=''"
  have c: "\<not> (?r = [] \<or> Contains ?r '','' \<or> Index ?r ''-'' < 0)"
    using rf unfolding range_fields_def Let_def by (auto split: if_splits)
  then have g: "(?r = []) = False" "Contains ?r '','' = False" "(Index ?r ''-'' < 0) = False"
    by auto
  have s: "TrimSpace (take (nat (Index ?r ''-'')) ?r) = start"
    "TrimSpace (drop (nat (Index ?r ''-'') + 1) ?r) = end"
    using rf c unfolding range_fields_def Let_def by simp_all
  show ?thesis
    unfolding parseRange_def range_result_def Let_def g s by simp
qed

lemma parseRange_bad_start:
  "range_fields r = Some (start, end) \<Longrightarrow> start \<noteq> [] \<Longrightarrow> ParseInt start = Inl e
     \<Longrightarrow> parseRange r = Inl (RangeBadNumber e)"
  by (simp add: parseRange_via_fields range_result_def)

lemma parseRange_bad_end:
  "range_fields r = Some (start, end) \<Longrightarrow> start = [] \<or> ParseInt start = Inr n
     \<Longrightarrow> end \<noteq> [] \<Longrightarrow> ParseInt end = Inl e
     \<Longrightarrow> parseRange r = Inl (RangeBadNumber e)"
  by (auto simp: parseRange_via_fields range_result_def)

text \<open>
  Claim C5. \<open>parseRange\<close> returns an invalid-range error for \<open>bytes=20-10\<close> (start
  greater than end), for \<open>bytes=10-20,30-40\<close> (a comma) and for \<open>bytes=-\<close> (no start
  and no end). Whenever it reaches the conversions and \<open>strconv.ParseInt\<close> fails on
  a non-empty start, or on a non-empty end after the start was empty or converted,
  the result is the invalid-range error that wraps that conversion error.
\<close>

theorem parseRange_errors:
  "parseRange ''bytes=20-10'' = Inl (RangeStartAfterEnd 20 10)
   \<and> parseRange ''bytes=10-20,30-40'' = Inl RangeNotSingle
   \<and> parseRange ''bytes=-'' = Inl RangeEmpty
   \<and> (\<forall>r start end e. range_fields r = Some (start, end) \<and> start \<noteq> []
          \<and> ParseInt start = Inl e \<longrightarrow> parseRange r = Inl (RangeBadNumber e))
   \<and> (\<forall>r start end n e. range_fields r = Some (start, end)
          \<and> (start = [] \<or> ParseInt start = Inr n) \<and> end \<noteq> []
          \<and> ParseInt end = Inl e \<longrightarrow> parseRange r = Inl (RangeBadNumber e))"
proof (intro conjI allI impI)
  show "parseRange ''bytes=20-10'' = Inl (RangeStartAfterEnd 20 10)" by code_simp
  show "parseRange ''bytes=10-20,30-40'' = Inl RangeNotSingle" by code_simp
  show "parseRange ''bytes=-'' = Inl RangeEmpty" by code_simp
next
  fix r start "end" e
  assume "range_fields r = Some (start, end) \<and> start \<noteq> [] \<and> ParseInt start = Inl e"
  then show "parseRange r = Inl (RangeBadNumber e)"
    using parseRange_bad_start by blast
next
  fix r start "end" n e
  assume "range_fields r = Some (start, end)
          \<and> (start = [] \<or> ParseInt start = Inr n) \<and> end \<noteq> []
          \<and> ParseInt end = Inl e"
  then show "parseRange r = Inl (RangeBadNumber e)"
    using parseRange_bad_end by blast
qed

theorem parseRange_errors_witness:
  "range_fields ''bytes=x-5'' = Some (''x'', ''5'')
   \<and> ParseInt ''x'' = Inl (ErrSyntax ''x'')
   \<and> parseRange ''bytes=x-5'' = Inl (RangeBadNumber (ErrSyntax ''x''))
   \<and> range_fields ''bytes=5-9223372036854775808'' = Some (''5'', ''9223372036854775808'')
   \<and> ParseInt ''5'' = Inr 5
   \<and> ParseInt ''9223372036854775808'' = Inl (ErrRange ''9223372036854775808'')
   \<and> parseRange ''bytes=5-9223372036854775808''
        = Inl (RangeBadNumber (ErrRange ''9223372036854775808''))"
proof -
  have f1: "range_fields ''bytes=x-5'' = Some (''x'', ''5'')" by code_simp
  have p1: "ParseInt ''x'' = Inl (ErrSyntax ''x'')" by code_simp
  have f2: "range_fields ''bytes=5-9223372036854775808'' = Some (''5'', ''9223372036854775808'')"
    by code_simp
  have p2: "ParseInt ''5'' = Inr 5" by code_simp
  have p3: "ParseInt ''9223372036854775808'' = Inl (ErrRange ''9223372036854775808'')"
    by code_simp
  have a: "\<forall>r start end e. range_fields r = Some (start, end) \<and> start \<noteq> []
          \<and> ParseInt start = Inl e \<longrightarrow> parseRange r = Inl (RangeBadNumber e)"
    using parseRange_errors by blast
  have b: "\<forall>r start end n e. range_fields r = Some (start, end)
          \<and> (start = [] \<or> ParseInt start = Inr n) \<and> end \<noteq> []
          \<and> ParseInt end = Inl e \<longrightarrow> parseRange r = Inl (RangeBadNumber e)"
    using parseRange_errors by blast
  have r1: "parseRange ''bytes=x-5'' = Inl (RangeBadNumber (ErrSyntax ''x''))"
    using a f1 p1 by blast
  have r2: "parseRange ''bytes=5-9223372036854775808''
        = Inl (RangeBadNumber (ErrRange ''9223372036854775808''))"
    using b f2 p2 p3 by blast
  show ?thesis using f1 p1 r1 f2 p2 p3 r2 by blast
qed


lemma parseRange_closed:
  assumes pre: "pre = [] \<or> pre = ''bytes=''" and le: "N \<le> M" and m: "M < 2 ^ 63"
  shows "parseRange (pre @ dec N @ ''-'' @ dec M) = Inr (of_nat N, of_nat (M - N + 1))"
proof -
  have n: "N < 2 ^ 63" using le m by simp
  have sn: "sint (of_nat N :: int64) = int N" and sm: "sint (of_nat M :: int64) = int M"
    using n m by (simp_all add: sint_of_nat_small)
  have c1: "\<not> (of_nat N :: int64) <s 0"
    by (simp add: word_sless_alt sn)
  have c2: "\<not> (of_nat M :: int64) <s of_nat N"
    using le by (simp add: word_sless_alt sn sm)
  have l: "(of_nat M :: int64) - of_nat N + 1 = of_nat (M - N + 1)"
    using le by simp
  have "parseRange (pre @ dec N @ ''-'' @ dec M) = range_result (dec N) (dec M)"
    using range_fields_digits [OF pre dec_digits dec_digits] by (rule parseRange_via_fields)
  moreover have "ParseInt (dec N) = Inr (of_nat N)" "ParseInt (dec M) = Inr (of_nat M)"
    using n m by (simp_all add: ParseInt_dec)
  ultimately show ?thesis
    using c1 c2 l by (simp add: range_result_def dec_nonempty)
qed

lemma parseRange_open_end:
  assumes pre: "pre = [] \<or> pre = ''bytes=''" and n: "N < 2 ^ 63"
  shows "parseRange (pre @ dec N @ ''-'') = Inr (of_nat N, -1)"
proof -
  have e: "\<forall>c \<in> set []. is_digit c" by simp
  have "parseRange (pre @ dec N @ ''-'' @ []) = range_result (dec N) []"
    using range_fields_digits [OF pre dec_digits e] by (rule parseRange_via_fields)
  moreover have "ParseInt (dec N) = Inr (of_nat N)"
    using n by (simp add: ParseInt_dec)
  ultimately show ?thesis
    by (simp add: range_result_def dec_nonempty)
qed

lemma parseRange_suffix:
  assumes pre: "pre = [] \<or> pre = ''bytes=''" and n: "N < 2 ^ 63"
  shows "parseRange (pre @ ''-'' @ dec N) = Inr (- of_nat N, -1)"
proof -
  have e: "\<forall>c \<in> set []. is_digit c" by simp
  have "parseRange (pre @ [] @ ''-'' @ dec N) = range_result [] (dec N)"
    using range_fields_digits [OF pre e dec_digits] by (rule parseRange_via_fields)
  moreover have "ParseInt (dec N) = Inr (of_nat N)"
    using n by (simp add: ParseInt_dec)
  ultimately show ?thesis
    by (simp add: range_result_def dec_nonempty)
qed

text \<open>
  Claim C4. \<open>parseRange\<close> maps the empty string, \<open>bytes=10-20\<close>, \<open>bytes=-5\<close> and
  \<open>bytes=10-\<close> to \<open>(0,-1)\<close>, \<open>(10,11)\<close>, \<open>(-5,-1)\<close> and \<open>(10,-1)\<close>. In general,
  with or without the prefix \<open>bytes=\<close>, for decimal numerals of numbers that fit
  \<open>int64\<close>: \<open>N-M\<close> with \<open>N \<le> M\<close> yields \<open>(N, M-N+1)\<close>, \<open>N-\<close> yields \<open>(N,-1)\<close> and
  \<open>-N\<close> yields \<open>(-N,-1)\<close>. The results are \<open>int64\<close> values and \<open>M-N+1\<close> is computed
  in \<open>int64\<close>.
\<close>

theorem parseRange_values:
  "parseRange [] = Inr (0, -1)
   \<and> parseRange ''bytes=10-20'' = Inr (10, 11)
   \<and> parseRange ''bytes=-5'' = Inr (-5, -1)
   \<and> parseRange ''bytes=10-'' = Inr (10, -1)
   \<and> (\<forall>pre N M. (pre = [] \<or> pre = ''bytes='') \<and> N \<le> M \<and> M < 2 ^ 63 \<longrightarrow>
         parseRange (pre @ dec N @ ''-'' @ dec M) = Inr (of_nat N, of_nat (M - N + 1)))
   \<and> (\<forall>pre N. (pre = [] \<or> pre = ''bytes='') \<and> N < 2 ^ 63 \<longrightarrow>
         parseRange (pre @ dec N @ ''-'') = Inr (of_nat N, -1))
   \<and> (\<forall>pre N. (pre = [] \<or> pre = ''bytes='') \<and> N < 2 ^ 63 \<longrightarrow>
         parseRange (pre @ ''-'' @ dec N) = Inr (- of_nat N, -1))"
proof -
  have 1: "parseRange [] = Inr (0, -1)" by code_simp
  have 2: "parseRange ''bytes=10-20'' = Inr (10, 11)" by code_simp
  have 3: "parseRange ''bytes=-5'' = Inr (-5, -1)" by code_simp
  have 4: "parseRange ''bytes=10-'' = Inr (10, -1)" by code_simp
  have 5: "\<forall>pre N M. (pre = [] \<or> pre = ''bytes='') \<and> N \<le> M \<and> M < 2 ^ 63 \<longrightarrow>
         parseRange (pre @ dec N @ ''-'' @ dec M) = Inr (of_nat N, of_nat (M - N + 1))"
    by (intro allI impI, elim conjE) (rule parseRange_closed)
  have 6: "\<forall>pre N. (pre = [] \<or> pre = ''bytes='') \<and> N < 2 ^ 63 \<longrightarrow>
         parseRange (pre @ dec N @ ''-'') = Inr (of_nat N, -1)"
    by (intro allI impI, elim conjE) (rule parseRange_open_end)
  have 7: "\<forall>pre N. (pre = [] \<or> pre = ''bytes='') \<and> N < 2 ^ 63 \<longrightarrow>
         parseRange (pre @ ''-'' @ dec N) = Inr (- of_nat N, -1)"
    by (intro allI impI, elim conjE) (rule parseRange_suffix)
  from 1 2 3 4 5 6 7 show ?thesis by (intro conjI)
qed

theorem parseRange_values_witness:
  "(7::nat) \<le> 300 \<and> (300::nat) < 2 ^ 63
   \<and> dec 7 = ''7'' \<and> dec 300 = ''300''
   \<and> parseRange ''bytes=7-300'' = Inr (7, 294)
   \<and> parseRange ''7-'' = Inr (7, -1)
   \<and> parseRange ''-300'' = Inr (-300, -1)"
proof -
  have d7: "dec 7 = ''7''" by code_simp
  have d300: "dec 300 = ''300''" by code_simp
  note g = parseRange_values [THEN conjunct2, THEN conjunct2, THEN conjunct2, THEN conjunct2]
  have a: "parseRange (''bytes='' @ dec 7 @ ''-'' @ dec 300) = Inr (of_nat 7, of_nat (300 - 7 + 1))"
    using g [THEN conjunct1, rule_format, of "''bytes=''" 7 300] by simp
  have b: "parseRange ([] @ dec 7 @ ''-'') = Inr (of_nat 7, -1)"
    using g [THEN conjunct2, THEN conjunct1, rule_format, of "[]" 7] by simp
  have c: "parseRange ([] @ ''-'' @ dec 300) = Inr (- of_nat 300, -1)"
    using g [THEN conjunct2, THEN conjunct2, rule_format, of "[]" 300] by simp
  show ?thesis
    using a b c by (simp add: d7 d300)
qed

subsection \<open>Destination paths\<close>

lemma strip_seps_id: "\<not> ends_with_sep p \<Longrightarrow> strip_seps p = p"
proof (cases "rev p")
  case Nil
  then show ?thesis by (simp add: strip_seps_def)
next
  case (Cons c cs)
  assume "\<not> ends_with_sep p"
  moreover have "last p = c" "p \<noteq> []" using Cons by (auto simp: last_rev [symmetric] simp del: last_rev)
  ultimately have "c \<noteq> CHR ''/''" by (simp add: ends_with_sep_def)
  then have "dropWhile (\<lambda>c. c = CHR ''/'') (rev p) = rev p" using Cons by simp
  then show ?thesis by (simp add: strip_seps_def)
qed

lemma strip_seps_not_dir: "\<not> ends_with_sep (strip_seps p)"
proof (cases "dropWhile (\<lambda>c. c = CHR ''/'') (rev p)")
  case Nil
  then show ?thesis by (simp add: strip_seps_def ends_with_sep_def)
next
  case (Cons c cs)
  then have "c \<noteq> CHR ''/''"
    using hd_dropWhile [of "\<lambda>c. c = CHR ''/''" "rev p"] by simp
  then show ?thesis using Cons by (simp add: strip_seps_def ends_with_sep_def)
qed

lemma joinDestWith_local: "joinDestWith (LocLocal p) s = LocLocal (strip_seps (p @ s))"
  by (simp add: joinDestWith_def AppendKey_def Local_def Directoryish_def Undirectoryish_def
      strip_seps_id Let_def)

text \<open>
  Claim C8. For every destination and suffix, \<open>joinDestWith\<close> appends the suffix to
  the destination and, when the result is local and directory-ish, strips its
  trailing separators. On the locations of the spec: a local result is the joined
  path without trailing separators and is never directory-ish, a remote result is
  the joined key, and joining \<open>foo/\<close> to the local directory \<open>dir/\<close> gives the local
  file \<open>dir/foo\<close>.
\<close>

theorem joinDestWith_resolves:
  "joinDestWith dest' sfx =
     (if Local (AppendKey dest' sfx) \<and> Directoryish (AppendKey dest' sfx)
      then Undirectoryish (AppendKey dest' sfx) else AppendKey dest' sfx)
   \<and> joinDestWith (LocLocal p) sfx = LocLocal (strip_seps (p @ sfx))
   \<and> Directoryish (joinDestWith (LocLocal p) sfx) = False
   \<and> joinDestWith (LocRemote b k) sfx = LocRemote b (k @ sfx)
   \<and> joinDestWith LocStd sfx = LocStd
   \<and> joinDestWith (LocLocal ''dir/'') ''foo/'' = LocLocal ''dir/foo''"
proof -
  have 1: "joinDestWith dest' sfx =
     (if Local (AppendKey dest' sfx) \<and> Directoryish (AppendKey dest' sfx)
      then Undirectoryish (AppendKey dest' sfx) else AppendKey dest' sfx)"
    by (simp add: joinDestWith_def Let_def)
  have 2: "Directoryish (joinDestWith (LocLocal p) sfx) = False"
    by (simp add: joinDestWith_local Directoryish_def strip_seps_not_dir)
  have 3: "joinDestWith (LocRemote b k) sfx = LocRemote b (k @ sfx)"
    by (simp add: joinDestWith_def AppendKey_def Local_def Let_def)
  have 4: "joinDestWith LocStd sfx = LocStd"
    by (simp add: joinDestWith_def AppendKey_def Local_def Let_def)
  have 5: "joinDestWith (LocLocal ''dir/'') ''foo/'' = LocLocal ''dir/foo''"
    by (simp add: joinDestWith_local strip_seps_def)
  from 1 joinDestWith_local 2 3 4 5 show ?thesis by (intro conjI)
qed

subsection \<open>Dry run\<close>

text \<open>
  Claim C9. With dry-run configured, \<open>copyFile\<close> returns nil at once and makes no
  call on the file system or on a handle: nothing is opened, created or requested.
\<close>

theorem copyFile_dryrun:
  "dryrun c \<Longrightarrow> copyFile fuel fs c source' dest' progress' = Some (None, [])"
  by (simp add: copyFile_def)

theorem copyFile_dryrun_witness:
  "dryrun (example_cmd\<lparr>dryrun := True\<rparr>)
   \<and> copyFile 0 example_fs (example_cmd\<lparr>dryrun := True\<rparr>) (LocLocal ''a'') (LocLocal ''b'') True
       = Some (None, [])"
  using copyFile_dryrun [of "example_cmd\<lparr>dryrun := True\<rparr>" 0 example_fs "LocLocal ''a''"
      "LocLocal ''b''" True]
  by simp

lemma parseRange_is_errs: "parseRange r = Inl e \<Longrightarrow> is_errs e"
  unfolding parseRange_def Let_def
  by (auto split: if_splits sum.splits)

text \<open>
  Claim C10. With dry-run configured, \<open>copyFile\<close> returns nil also for a range
  expression that \<open>parseRange\<close> rejects; without dry-run the same invocation returns
  the invalid-range error (an errs error, which \<open>errs.Wrap\<close> returns as it is).
\<close>

theorem copyFile_dryrun_skips_range:
  "dryrun c \<Longrightarrow> parseRange (byteRange c) = Inl e \<Longrightarrow>
     copyFile fuel fs c source' dest' progress' = Some (None, [])
     \<and> copyFile fuel fs (c\<lparr>dryrun := False\<rparr>) source' dest' progress' = Some (Some e, [])"
  by (simp add: copyFile_def Wrap_def parseRange_is_errs)

theorem copyFile_dryrun_skips_range_witness:
  "dryrun (example_cmd\<lparr>dryrun := True, byteRange := ''bytes=20-10''\<rparr>)
   \<and> parseRange (byteRange (example_cmd\<lparr>dryrun := True, byteRange := ''bytes=20-10''\<rparr>))
       = Inl (RangeStartAfterEnd 20 10)
   \<and> copyFile 0 example_fs (example_cmd\<lparr>dryrun := True, byteRange := ''bytes=20-10''\<rparr>)
        (LocLocal ''a'') (LocLocal ''b'') True = Some (None, [])
   \<and> copyFile 0 example_fs (example_cmd\<lparr>dryrun := False, byteRange := ''bytes=20-10''\<rparr>)
        (LocLocal ''a'') (LocLocal ''b'') True
       = Some (Some (RangeStartAfterEnd 20 10), [])"
proof -
  let ?c = "example_cmd\<lparr>dryrun := True, byteRange := ''bytes=20-10''\<rparr>"
  have d: "dryrun ?c" by simp
  have "parseRange ''bytes=20-10'' = Inl (RangeStartAfterEnd 20 10)" by code_simp
  then have r: "parseRange (byteRange ?c) = Inl (RangeStartAfterEnd 20 10)" by simp
  show ?thesis
    using copyFile_dryrun_skips_range [OF d r, of 0 example_fs "LocLocal ''a''" "LocLocal ''b''" True]
      d r by (simp add: example_cmd_def)
qed


subsection \<open>Recursive copies\<close>

lemma Std_AsDirectoryish: "Std (AsDirectoryish l) = Std l"
  by (cases l) (simp_all add: Std_def AsDirectoryish_def)

text \<open>
  Claim C7. A recursive invocation with a non-empty byte range, or with a standard
  stream as source or destination, returns an error, and the calls it has made
  by then contain no listing, no open, no create and no call on a handle. With the
  file system opened, the error is the one of the byte range, else the one of the
  standard stream.
\<close>

theorem recursive_rejections:
  assumes "recursive c" and "byteRange c \<noteq> [] \<or> Std (source c) \<or> Std (dest c)"
  shows "\<exists>e evs. Execute fuel fs c = Some (Some e, evs)
           \<and> list_all (\<lambda>ev. \<not> transfer_event ev) evs
           \<and> (open_filesystem_err fs = None \<longrightarrow>
                e = (if byteRange c \<noteq> [] then RecursiveWithRange else RecursiveStd))"
proof (cases "open_filesystem_err fs")
  case (Some e)
  then show ?thesis by (simp add: Execute_def)
next
  case None
  show ?thesis
  proof (cases "byteRange c \<noteq> []")
    case True
    then show ?thesis using None assms(1) by (simp add: Execute_def Let_def)
  next
    case False
    then have "Std (source c) \<or> Std (dest c)" using assms(2) by simp
    then have "copyRecursive fuel fs
        (c\<lparr>source := (if is_local_dir fs (source c) then AsDirectoryish (source c) else source c),
           dest := AsDirectoryish (dest c)\<rparr>) = Some (Some RecursiveStd, [])"
      by (auto simp: copyRecursive_def Std_AsDirectoryish)
    then show ?thesis using None False assms(1) by (simp add: Execute_def Let_def)
  qed
qed

theorem recursive_rejections_witness:
  "recursive (example_cmd\<lparr>recursive := True, byteRange := ''bytes=1-2''\<rparr>)
   \<and> byteRange (example_cmd\<lparr>recursive := True, byteRange := ''bytes=1-2''\<rparr>) \<noteq> []
   \<and> (\<exists>evs. Execute 0 example_fs (example_cmd\<lparr>recursive := True, byteRange := ''bytes=1-2''\<rparr>)
              = Some (Some RecursiveWithRange, evs)
            \<and> list_all (\<lambda>ev. \<not> transfer_event ev) evs)
   \<and> recursive (example_cmd\<lparr>recursive := True, dest := LocStd\<rparr>)
   \<and> Std (dest (example_cmd\<lparr>recursive := True, dest := LocStd\<rparr>))
   \<and> (\<exists>evs. Execute 0 example_fs (example_cmd\<lparr>recursive := True, dest := LocStd\<rparr>)
              = Some (Some RecursiveStd, evs)
            \<and> list_all (\<lambda>ev. \<not> transfer_event ev) evs)"
proof -
  let ?c1 = "example_cmd\<lparr>recursive := True, byteRange := ''bytes=1-2''\<rparr>"
  let ?c2 = "example_cmd\<lparr>recursive := True, dest := LocStd\<rparr>"
  have h1: "recursive ?c1" "byteRange ?c1 \<noteq> [] \<or> Std (source ?c1) \<or> Std (dest ?c1)"
    by simp_all
  have h2: "recursive ?c2" "byteRange ?c2 \<noteq> [] \<or> Std (source ?c2) \<or> Std (dest ?c2)"
    by (simp_all add: Std_def)
  have o: "open_filesystem_err example_fs = None" by (simp add: example_fs_def)
  have b: "byteRange ?c1 \<noteq> []" "byteRange ?c2 = []" by (simp_all add: example_cmd_def)
  have r1: "\<exists>evs. Execute 0 example_fs ?c1 = Some (Some RecursiveWithRange, evs)
            \<and> list_all (\<lambda>ev. \<not> transfer_event ev) evs"
    using recursive_rejections [OF h1, of 0 example_fs] o b(1) by auto
  have r2: "\<exists>evs. Execute 0 example_fs ?c2 = Some (Some RecursiveStd, evs)
            \<and> list_all (\<lambda>ev. \<not> transfer_event ev) evs"
    using recursive_rejections [OF h2, of 0 example_fs] o b(2) by auto
  show ?thesis using h1(1) b(1) r1 h2(1) r2 by (simp add: Std_def)
qed

subsection \<open>The loop of parallelCopy\<close>

lemma next_chunk_sint:
  assumes "0 < sint len" and "1 \<le> sint cs"
  shows "sint (next_chunk cs len) = min (sint cs) (sint len)"
  using assms by (auto simp: next_chunk_def word_sless_alt min_def)

lemma sub_chunk_sint:
  assumes "0 < sint len" and "1 \<le> sint cs"
  shows "sint (len - next_chunk cs len) = sint len - min (sint cs) (sint len)"
proof -
  let ?c = "next_chunk cs len"
  have c: "sint ?c = min (sint cs) (sint len)"
    using assms by (rule next_chunk_sint)
  have u: "sint len < 2 ^ 63" using sint_lt [of len] by simp
  have lo: "- (2 ^ 63) \<le> sint len - sint ?c" using c assms by simp
  have hi: "sint len - sint ?c < 2 ^ 63" using c assms u by simp
  have "sint (len - ?c) = signed_take_bit 63 (sint len - sint ?c)"
    by (simp add: sint_word_ariths)
  also have "\<dots> = sint len - sint ?c"
    using lo hi by (rule signed_take_bit_int_eq_self)
  finally show ?thesis using c by simp
qed

lemma requested_append: "requested (xs @ ys) = requested xs @ requested ys"
  by (induction xs rule: requested.induct) simp_all

lemma requested_part_task: "requested (snd (part_task pe i)) = []"
  by (simp add: part_task_def split: option.split)

lemma spec_chunks_step:
  "0 < r \<Longrightarrow> 1 \<le> c \<Longrightarrow> spec_chunks c r = min c r # spec_chunks c (r - min c r)"
  by (subst spec_chunks.simps) simp

lemma spec_chunks_zero: "spec_chunks c 0 = []"
  by (subst spec_chunks.simps) simp

lemma sum_spec_chunks: "0 \<le> r \<Longrightarrow> 1 \<le> c \<Longrightarrow> sum_list (spec_chunks c r) = r"
proof (induction c r rule: spec_chunks.induct)
  case (1 c r)
  show ?case
  proof (cases "r = 0")
    case True
    then show ?thesis by (simp add: spec_chunks_zero)
  next
    case False
    then have r: "0 < r" using "1.prems" by simp
    have "sum_list (spec_chunks c (r - min c r)) = r - min c r"
      using "1.IH" r "1.prems" by simp
    then show ?thesis using r "1.prems" by (simp add: spec_chunks_step)
  qed
qed

lemma dst_requested_append: "dst_requested (xs @ ys) = dst_requested xs @ dst_requested ys"
  by (induction xs rule: dst_requested.induct) simp_all

lemma dst_requested_part_task: "dst_requested (snd (part_task pe i)) = []"
  by (simp add: part_task_def split: option.split)

lemma stops_at_zero: "\<not> proceeds (ps i) \<Longrightarrow> stops_at ps i k \<Longrightarrow> k = 0"
proof (rule ccontr)
  assume np: "\<not> proceeds (ps i)" and st: "stops_at ps i k" and "k \<noteq> 0"
  then have "0 < k" by simp
  then have "proceeds (ps (i + 0))" using st unfolding stops_at_def by blast
  then show False using np by simp
qed

lemma stops_at_Suc:
  assumes "proceeds (ps i)" and "stops_at ps i k"
  shows "\<exists>k'. k = Suc k' \<and> stops_at ps (Suc i) k'"
proof (cases k)
  case 0
  then show ?thesis using assms by (simp add: stops_at_def)
next
  case (Suc k')
  have "\<forall>j < k'. proceeds (ps (Suc i + j))"
  proof (intro allI impI)
    fix j assume "j < k'"
    then have "Suc j < k" using Suc by simp
    then have "proceeds (ps (i + Suc j))" using assms(2) unfolding stops_at_def by blast
    then show "proceeds (ps (Suc i + j))" by simp
  qed
  moreover have "\<not> proceeds (ps (Suc i + k'))"
    using assms(2) Suc by (simp add: stops_at_def)
  ultimately show ?thesis using Suc by (simp add: stops_at_def)
qed

lemma copy_loop_bounded:
  assumes cs: "1 \<le> sint cs"
  shows "0 \<le> sint len \<Longrightarrow> nat (sint len) \<le> fuel \<Longrightarrow>
     \<exists>ex l es' evs. copy_loop fuel ps cs i len es = Some (ex, l, es', evs)
        \<and> 0 \<le> sint l
        \<and> sint l = sint len - sum_list (map sint (requested evs))
        \<and> (\<forall>k. k < length (spec_chunks (sint cs) (sint len)) \<and> stops_at ps i k \<longrightarrow>
              ex = stop_exit (ps (i + k))
              \<and> map sint (requested evs) = take (Suc k) (spec_chunks (sint cs) (sint len))
              \<and> map sint (dst_requested evs)
                  = take (if src_next (ps (i + k)) = SrcPart then Suc k else k)
                      (spec_chunks (sint cs) (sint len)))
        \<and> ((\<forall>j < length (spec_chunks (sint cs) (sint len)). proceeds (ps (i + j))) \<longrightarrow>
              ex = LoopDone \<and> l = 0
              \<and> map sint (requested evs) = spec_chunks (sint cs) (sint len)
              \<and> map sint (dst_requested evs) = spec_chunks (sint cs) (sint len))"
proof (induction fuel arbitrary: i len es)
  case 0
  then have "sint len = 0" by simp
  then have "len = 0" by (simp add: signed_eq_0_iff)
  then show ?case by (simp add: spec_chunks_zero)
next
  case (Suc fuel)
  show ?case
  proof (cases "len = 0")
    case True
    then show ?thesis by (simp add: spec_chunks_zero)
  next
    case False
    let ?G = ?thesis
    from False have "sint len \<noteq> 0" by (simp add: signed_eq_0_iff)
    then have pos: "0 < sint len" using Suc.prems(1) by simp
    let ?chunk = "next_chunk cs len"
    let ?len1 = "len - ?chunk"
    let ?c = "min (sint cs) (sint len)"
    let ?rest = "spec_chunks (sint cs) (sint ?len1)"
    have c: "sint ?chunk = ?c" using pos cs by (rule next_chunk_sint)
    have l1: "sint ?len1 = sint len - ?c" using pos cs by (rule sub_chunk_sint)
    have c1: "1 \<le> ?c" using pos cs by simp
    have l1pos: "0 \<le> sint ?len1" using l1 by simp
    have l1fuel: "nat (sint ?len1) \<le> fuel" using l1 c1 Suc.prems(2) by linarith
    have sc: "spec_chunks (sint cs) (sint len) = ?c # ?rest"
      using spec_chunks_step [OF pos cs] l1 by simp
    show ?thesis
    proof (cases "proceeds (ps i)")
      case np: False
      have stop: "\<And>ex es' evs. ex = stop_exit (ps i) \<Longrightarrow> requested evs = [?chunk]
          \<Longrightarrow> dst_requested evs = (if src_next (ps i) = SrcPart then [?chunk] else [])
          \<Longrightarrow> copy_loop (Suc fuel) ps cs i len es = Some (ex, ?len1, es', evs) \<Longrightarrow> ?G"
      proof -
        fix ex es' evs
        assume x: "ex = stop_exit (ps i)"
          and r: "requested evs = [?chunk]"
          and d: "dst_requested evs = (if src_next (ps i) = SrcPart then [?chunk] else [])"
          and e: "copy_loop (Suc fuel) ps cs i len es = Some (ex, ?len1, es', evs)"
        have a: "sint ?len1 = sint len - sum_list (map sint (requested evs))"
          using r c l1 by simp
        have b: "\<forall>k. k < length (spec_chunks (sint cs) (sint len)) \<and> stops_at ps i k \<longrightarrow>
              ex = stop_exit (ps (i + k))
              \<and> map sint (requested evs) = take (Suc k) (spec_chunks (sint cs) (sint len))
              \<and> map sint (dst_requested evs)
                  = take (if src_next (ps (i + k)) = SrcPart then Suc k else k)
                      (spec_chunks (sint cs) (sint len))"
        proof (intro allI impI)
          fix k
          assume "k < length (spec_chunks (sint cs) (sint len)) \<and> stops_at ps i k"
          then have "k = 0" using np stops_at_zero by blast
          then show "ex = stop_exit (ps (i + k))
              \<and> map sint (requested evs) = take (Suc k) (spec_chunks (sint cs) (sint len))
              \<and> map sint (dst_requested evs)
                  = take (if src_next (ps (i + k)) = SrcPart then Suc k else k)
                      (spec_chunks (sint cs) (sint len))"
            using x r d c sc by simp
        qed
        have "\<not> (\<forall>j < length (spec_chunks (sint cs) (sint len)). proceeds (ps (i + j)))"
          using np sc by auto
        then show ?G using e l1pos a b by blast
      qed
      show ?thesis
      proof (cases "src_next (ps i)")
        case SrcEOF
        then show ?thesis
          using False by (intro stop) (simp_all add: Let_def stop_exit_def)
      next
        case (SrcFail e)
        then show ?thesis
          using False by (intro stop) (simp_all add: Let_def stop_exit_def)
      next
        case SrcPart
        show ?thesis
        proof (cases "dst_next (ps i)")
          case (Some e)
          then show ?thesis
            using False SrcPart by (intro stop) (simp_all add: Let_def stop_exit_def)
        next
          case None
          then have "\<not> go_ok (ps i)" using np SrcPart by (simp add: proceeds_def)
          then show ?thesis
            using False SrcPart None by (intro stop) (simp_all add: Let_def stop_exit_def)
        qed
      qed
    next
      case pr: True
      then have sp: "src_next (ps i) = SrcPart" and dn: "dst_next (ps i) = None"
        and go: "go_ok (ps i)" by (simp_all add: proceeds_def)
      let ?es1 = "group_Add es (fst (part_task (ps i) i))"
      obtain ex l es' evs where
        r: "copy_loop fuel ps cs (Suc i) ?len1 ?es1 = Some (ex, l, es', evs)"
        and lp: "0 \<le> sint l"
        and sl: "sint l = sint ?len1 - sum_list (map sint (requested evs))"
        and st: "\<forall>k. k < length ?rest \<and> stops_at ps (Suc i) k \<longrightarrow>
              ex = stop_exit (ps (Suc i + k))
              \<and> map sint (requested evs) = take (Suc k) ?rest
              \<and> map sint (dst_requested evs)
                  = take (if src_next (ps (Suc i + k)) = SrcPart then Suc k else k) ?rest"
        and al: "(\<forall>j < length ?rest. proceeds (ps (Suc i + j))) \<longrightarrow>
              ex = LoopDone \<and> l = 0
              \<and> map sint (requested evs) = ?rest \<and> map sint (dst_requested evs) = ?rest"
        using Suc.IH [OF l1pos l1fuel, of "Suc i" ?es1] by blast
      let ?evs = "[EvSrcNextPart i ?chunk, EvDstNextPart i ?chunk]
                    @ snd (part_task (ps i) i) @ evs"
      have e: "copy_loop (Suc fuel) ps cs i len es = Some (ex, l, es', ?evs)"
        using False sp dn go r by (simp add: Let_def)
      have rq: "requested ?evs = ?chunk # requested evs"
        by (simp add: requested_append requested_part_task)
      have dq: "dst_requested ?evs = ?chunk # dst_requested evs"
        by (simp add: dst_requested_append dst_requested_part_task)
      have a: "sint l = sint len - sum_list (map sint (requested ?evs))"
        unfolding rq using sl l1 c by simp
      have b: "\<forall>k. k < length (spec_chunks (sint cs) (sint len)) \<and> stops_at ps i k \<longrightarrow>
              ex = stop_exit (ps (i + k))
              \<and> map sint (requested ?evs) = take (Suc k) (spec_chunks (sint cs) (sint len))
              \<and> map sint (dst_requested ?evs)
                  = take (if src_next (ps (i + k)) = SrcPart then Suc k else k)
                      (spec_chunks (sint cs) (sint len))"
      proof (intro allI impI)
        fix k
        assume h: "k < length (spec_chunks (sint cs) (sint len)) \<and> stops_at ps i k"
        then obtain k' where k: "k = Suc k'" and s': "stops_at ps (Suc i) k'"
          using stops_at_Suc [of ps i k] pr by blast
        have "k' < length ?rest" using h k sc by simp
        then have "ex = stop_exit (ps (Suc i + k'))
              \<and> map sint (requested evs) = take (Suc k') ?rest
              \<and> map sint (dst_requested evs)
                  = take (if src_next (ps (Suc i + k')) = SrcPart then Suc k' else k') ?rest"
          using st s' by blast
        then show "ex = stop_exit (ps (i + k))
              \<and> map sint (requested ?evs) = take (Suc k) (spec_chunks (sint cs) (sint len))
              \<and> map sint (dst_requested ?evs)
                  = take (if src_next (ps (i + k)) = SrcPart then Suc k else k)
                      (spec_chunks (sint cs) (sint len))"
          unfolding rq dq sc k using c by simp
      qed
      have d: "(\<forall>j < length (spec_chunks (sint cs) (sint len)). proceeds (ps (i + j))) \<longrightarrow>
              ex = LoopDone \<and> l = 0
              \<and> map sint (requested ?evs) = spec_chunks (sint cs) (sint len)
              \<and> map sint (dst_requested ?evs) = spec_chunks (sint cs) (sint len)"
      proof
        assume h: "\<forall>j < length (spec_chunks (sint cs) (sint len)). proceeds (ps (i + j))"
        have "\<forall>j < length ?rest. proceeds (ps (Suc i + j))"
        proof (intro allI impI)
          fix j assume "j < length ?rest"
          then have "Suc j < length (spec_chunks (sint cs) (sint len))" using sc by simp
          then have "proceeds (ps (i + Suc j))" using h by blast
          then show "proceeds (ps (Suc i + j))" by simp
        qed
        then have "ex = LoopDone \<and> l = 0
              \<and> map sint (requested evs) = ?rest \<and> map sint (dst_requested evs) = ?rest"
          using al by blast
        then show "ex = LoopDone \<and> l = 0
              \<and> map sint (requested ?evs) = spec_chunks (sint cs) (sint len)
              \<and> map sint (dst_requested ?evs) = spec_chunks (sint cs) (sint len)"
          unfolding rq dq sc using c by simp
      qed
      show ?thesis using e lp a b d by blast
    qed
  qed
qed


text \<open>
  Claim C3 says that for a bounded transfer the loop ends with a remaining length of
  exactly 0. With an early EOF it does not: with length 10 and chunk size 4, a source
  that is at its end leaves the loop after the first request, with 6 remaining.
\<close>

theorem chunk_loop_early_eof_counterexample:
  "(0::int64) \<le>s 10 \<and> (1::int64) \<le>s 4
   \<and> copy_loop 10 all_eof 4 0 10 [] = Some (LoopDone, 6, [], [EvSrcNextPart 0 4])
   \<and> (6::int64) \<noteq> 0"
proof -
  have "copy_loop 10 all_eof 4 0 10 [] = Some (LoopDone, 6, [], [EvSrcNextPart 0 4])"
    by code_simp
  then show ?thesis by (simp add: word_sle_eq)
qed

text \<open>
  Claim C3, amended. For a bounded transfer (length at least 0) and a chunk size of at
  least 1: each iteration's chunk is the minimum of the chunk size and the remaining
  length; the loop ends within as many iterations as the length, in every environment;
  the remaining length is never negative and is the initial length minus the sizes
  passed to \<open>src.NextPart\<close>. When a part ends the loop early (EOF, an error, a refused
  task), the sizes requested are the chunks up to and including that part's, and the
  remaining length is what is left after them. When none of the parts needed does, the
  loop ends with a remaining length of exactly 0, and the sizes passed to
  \<open>src.NextPart\<close>, and those passed to \<open>dst.NextPart\<close>, are all the chunks and add
  up to the initial length.
\<close>

theorem chunk_loop_bounded:
  assumes "0 \<le>s length'" and "1 \<le>s chunkSize" and "nat (sint length') \<le> fuel"
  shows "(0 <s length' \<longrightarrow>
            sint (next_chunk chunkSize length') = min (sint chunkSize) (sint length'))
    \<and> (\<exists>ex l es' evs. copy_loop fuel ps chunkSize i length' es = Some (ex, l, es', evs)
          \<and> 0 \<le>s l
          \<and> sint l = sint length' - sum_list (map sint (requested evs))
          \<and> (\<forall>k. k < length (spec_chunks (sint chunkSize) (sint length')) \<and> stops_at ps i k
                \<longrightarrow> ex = stop_exit (ps (i + k))
                  \<and> map sint (requested evs)
                      = take (Suc k) (spec_chunks (sint chunkSize) (sint length'))
                  \<and> map sint (dst_requested evs)
                      = take (if src_next (ps (i + k)) = SrcPart then Suc k else k)
                          (spec_chunks (sint chunkSize) (sint length')))
          \<and> ((\<forall>j < length (spec_chunks (sint chunkSize) (sint length')). proceeds (ps (i + j)))
                \<longrightarrow> ex = LoopDone \<and> l = 0
                  \<and> map sint (requested evs) = spec_chunks (sint chunkSize) (sint length')
                  \<and> map sint (dst_requested evs) = spec_chunks (sint chunkSize) (sint length')
                  \<and> sum_list (map sint (requested evs)) = sint length'
                  \<and> sum_list (map sint (dst_requested evs)) = sint length'))"
proof -
  let ?chunks = "spec_chunks (sint chunkSize) (sint length')"
  have len: "0 \<le> sint length'" using assms(1) by (simp add: word_sle_eq)
  have cs: "1 \<le> sint chunkSize" using assms(2) by (simp add: word_sle_eq)
  have a: "0 <s length' \<longrightarrow>
            sint (next_chunk chunkSize length') = min (sint chunkSize) (sint length')"
    using cs by (simp add: word_sless_alt next_chunk_sint)
  obtain ex l es' evs where
    r: "copy_loop fuel ps chunkSize i length' es = Some (ex, l, es', evs)"
    and lp: "0 \<le> sint l"
    and sl: "sint l = sint length' - sum_list (map sint (requested evs))"
    and st: "\<forall>k. k < length ?chunks \<and> stops_at ps i k \<longrightarrow>
              ex = stop_exit (ps (i + k))
              \<and> map sint (requested evs) = take (Suc k) ?chunks
              \<and> map sint (dst_requested evs)
                  = take (if src_next (ps (i + k)) = SrcPart then Suc k else k) ?chunks"
    and al: "(\<forall>j < length ?chunks. proceeds (ps (i + j))) \<longrightarrow>
              ex = LoopDone \<and> l = 0
              \<and> map sint (requested evs) = ?chunks \<and> map sint (dst_requested evs) = ?chunks"
    using copy_loop_bounded [OF cs len assms(3), of ps i es] by blast
  have sm: "sum_list ?chunks = sint length'" using len cs by (rule sum_spec_chunks)
  have lpw: "0 \<le>s l" using lp by (simp add: word_sle_eq)
  have al': "(\<forall>j < length ?chunks. proceeds (ps (i + j))) \<longrightarrow>
              ex = LoopDone \<and> l = 0
              \<and> map sint (requested evs) = ?chunks \<and> map sint (dst_requested evs) = ?chunks
              \<and> sum_list (map sint (requested evs)) = sint length'
              \<and> sum_list (map sint (dst_requested evs)) = sint length'"
    using al sm by auto
  from r lpw sl st al' have "\<exists>ex l es' evs. copy_loop fuel ps chunkSize i length' es = Some (ex, l, es', evs)
          \<and> 0 \<le>s l
          \<and> sint l = sint length' - sum_list (map sint (requested evs))
          \<and> (\<forall>k. k < length ?chunks \<and> stops_at ps i k
                \<longrightarrow> ex = stop_exit (ps (i + k))
                  \<and> map sint (requested evs) = take (Suc k) ?chunks
                  \<and> map sint (dst_requested evs)
                      = take (if src_next (ps (i + k)) = SrcPart then Suc k else k) ?chunks)
          \<and> ((\<forall>j < length ?chunks. proceeds (ps (i + j)))
                \<longrightarrow> ex = LoopDone \<and> l = 0
                  \<and> map sint (requested evs) = ?chunks
                  \<and> map sint (dst_requested evs) = ?chunks
                  \<and> sum_list (map sint (requested evs)) = sint length'
                  \<and> sum_list (map sint (dst_requested evs)) = sint length')"
    by blast
  with a show ?thesis by (rule conjI)
qed

theorem chunk_loop_bounded_witness:
  "(0::int64) \<le>s 10 \<and> (1::int64) \<le>s 4 \<and> nat (sint (10::int64)) \<le> 10
   \<and> spec_chunks (sint (4::int64)) (sint (10::int64)) = [4, 4, 2]
   \<and> proceeds (three_parts 0) \<and> proceeds (three_parts 1) \<and> proceeds (three_parts 2)
   \<and> (\<exists>es' evs. copy_loop 10 three_parts 4 0 10 [] = Some (LoopDone, 0, es', evs)
          \<and> map sint (requested evs) = [4, 4, 2]
          \<and> map sint (dst_requested evs) = [4, 4, 2])
   \<and> src_next (all_eof 0) = SrcEOF
   \<and> (\<exists>l es' evs. copy_loop 10 all_eof 4 0 10 [] = Some (LoopDone, l, es', evs)
          \<and> map sint (requested evs) = [4] \<and> sint l = 10 - 4)"
proof -
  have h: "(0::int64) \<le>s 10" "(1::int64) \<le>s 4" "nat (sint (10::int64)) \<le> 10"
    by (simp_all add: word_sle_eq)
  have s: "spec_chunks (sint (4::int64)) (sint (10::int64)) = [4, 4, 2]"
    by (simp add: spec_chunks_step spec_chunks_zero)
  have p: "\<forall>j < 3. proceeds (three_parts (0 + j))"
    by (simp add: proceeds_def three_parts_def part_ok_def)
  have q: "stops_at all_eof 0 0"
    by (simp add: stops_at_def proceeds_def all_eof_def part_eof_def)
  have x: "stop_exit (all_eof 0) = LoopDone" "src_next (all_eof 0) \<noteq> SrcPart"
    by (simp_all add: stop_exit_def all_eof_def part_eof_def)
  have a: "\<exists>es' evs. copy_loop 10 three_parts 4 0 10 [] = Some (LoopDone, 0, es', evs)
          \<and> map sint (requested evs) = [4, 4, 2]
          \<and> map sint (dst_requested evs) = [4, 4, 2]"
    using chunk_loop_bounded [OF h, of three_parts 0 "[]"] p unfolding s by auto
  have b: "\<exists>l es' evs. copy_loop 10 all_eof 4 0 10 [] = Some (LoopDone, l, es', evs)
          \<and> map sint (requested evs) = [4] \<and> sint l = 10 - 4"
    using chunk_loop_bounded [OF h, of all_eof 0 "[]"] q x unfolding s by fastforce
  have p3: "proceeds (three_parts 0)" "proceeds (three_parts 1)" "proceeds (three_parts 2)"
    by (simp_all add: proceeds_def three_parts_def part_ok_def)
  have e0: "src_next (all_eof 0) = SrcEOF"
    by (simp add: all_eof_def part_eof_def)
  from h s p3 a e0 b show ?thesis by (intro conjI)
qed

lemma next_chunk_nonpositive: "chunkSize \<le>s 0 \<Longrightarrow> next_chunk chunkSize length' = chunkSize"
  by (auto simp: next_chunk_def word_sle_eq word_sless_alt)

text \<open>
  Claim C6 says that \<open>parallelCopy\<close> rejects a chunk size of 0 or less. It does not:
  with chunk size 0 and length 5, a source that yields one part and then ends, the
  copy requests parts of size 0 and returns nil.
\<close>

theorem parallelCopy_zero_chunk_counterexample:
  "parallelCopy 2 example_copy_env 4 0 0 5
     = Some (None,
         [EvSrcNextPart 0 0, EvDstNextPart 0 0, EvIoCopy 0, EvPartCommit 0, EvPartAbort 0,
          EvPartClose 0, EvSrcNextPart 1 0, EvDstCommit, EvDstAbort, EvSrcClose])"
  by code_simp

lemma copy_loop_constant_chunk:
  assumes cs: "chunkSize \<le>s 0"
  shows "stops_at ps i k \<Longrightarrow> \<forall>j \<le> k. len - of_nat j * chunkSize \<noteq> 0 \<Longrightarrow> k < fuel \<Longrightarrow>
     \<exists>l es' evs. copy_loop fuel ps chunkSize i len es
                    = Some (stop_exit (ps (i + k)), l, es', evs)
        \<and> requested evs = replicate (Suc k) chunkSize"
proof (induction k arbitrary: fuel i len es)
  case 0
  then obtain f where f: "fuel = Suc f" by (cases fuel) auto
  have np: "\<not> proceeds (ps i)" using "0.prems"(1) by (simp add: stops_at_def)
  have nz: "len \<noteq> 0" using "0.prems"(2) by simp
  have ch: "next_chunk chunkSize len = chunkSize" using cs by (rule next_chunk_nonpositive)
  show ?case
  proof (cases "src_next (ps i)")
    case SrcEOF
    then show ?thesis using nz ch f by (simp add: Let_def stop_exit_def)
  next
    case (SrcFail e)
    then show ?thesis using nz ch f by (simp add: Let_def stop_exit_def)
  next
    case SrcPart
    show ?thesis
    proof (cases "dst_next (ps i)")
      case (Some e)
      then show ?thesis using nz ch f SrcPart by (simp add: Let_def stop_exit_def)
    next
      case None
      then have "\<not> go_ok (ps i)" using np SrcPart by (simp add: proceeds_def)
      then show ?thesis using nz ch f SrcPart None by (simp add: Let_def stop_exit_def)
    qed
  qed
next
  case (Suc k)
  then obtain f where f: "fuel = Suc f" and kf: "k < f" by (cases fuel) auto
  have "proceeds (ps (i + 0))" using Suc.prems(1) unfolding stops_at_def by blast
  then have pr: "proceeds (ps i)" by simp
  then have sp: "src_next (ps i) = SrcPart" and dn: "dst_next (ps i) = None"
    and go: "go_ok (ps i)" by (simp_all add: proceeds_def)
  obtain k' where "Suc k = Suc k'" and "stops_at ps (Suc i) k'"
    using stops_at_Suc [of ps i "Suc k"] pr Suc.prems(1) by blast
  then have st: "stops_at ps (Suc i) k" by simp
  have "len - of_nat 0 * chunkSize \<noteq> 0" using Suc.prems(2) by blast
  then have nz: "len \<noteq> 0" by simp
  have ch: "next_chunk chunkSize len = chunkSize" using cs by (rule next_chunk_nonpositive)
  have rest: "\<forall>j \<le> k. (len - chunkSize) - of_nat j * chunkSize \<noteq> 0"
  proof (intro allI impI)
    fix j assume "j \<le> k"
    then have "Suc j \<le> Suc k" by simp
    then have "len - of_nat (Suc j) * chunkSize \<noteq> 0" using Suc.prems(2) by blast
    then show "(len - chunkSize) - of_nat j * chunkSize \<noteq> 0" by (simp add: algebra_simps)
  qed
  let ?es1 = "group_Add es (fst (part_task (ps i) i))"
  obtain l es' evs where
    r: "copy_loop f ps chunkSize (Suc i) (len - chunkSize) ?es1
          = Some (stop_exit (ps (Suc i + k)), l, es', evs)"
    and q: "requested evs = replicate (Suc k) chunkSize"
    using Suc.IH [OF st rest kf, of ?es1] by blast
  have "copy_loop fuel ps chunkSize i len es
          = Some (stop_exit (ps (i + Suc k)), l, es',
              [EvSrcNextPart i chunkSize, EvDstNextPart i chunkSize]
                @ snd (part_task (ps i) i) @ evs)"
    using nz ch f sp dn go r by (simp add: Let_def)
  moreover have "requested ([EvSrcNextPart i chunkSize, EvDstNextPart i chunkSize]
                @ snd (part_task (ps i) i) @ evs) = replicate (Suc (Suc k)) chunkSize"
    using q by (simp add: requested_append requested_part_task)
  ultimately show ?case by blast
qed

lemma copy_loop_diverges:
  assumes cs: "chunkSize \<le>s 0"
  shows "\<forall>j. proceeds (ps (i + j)) \<Longrightarrow> \<forall>j. len - of_nat j * chunkSize \<noteq> 0 \<Longrightarrow>
     copy_loop fuel ps chunkSize i len es = None"
proof (induction fuel arbitrary: i len es)
  case 0
  have "len - of_nat 0 * chunkSize \<noteq> 0" using "0.prems"(2) by blast
  then show ?case by simp
next
  case (Suc fuel)
  have "len - of_nat 0 * chunkSize \<noteq> 0" using Suc.prems(2) by blast
  then have nz: "len \<noteq> 0" by simp
  have "proceeds (ps (i + 0))" using Suc.prems(1) by blast
  then have sp: "src_next (ps i) = SrcPart" and dn: "dst_next (ps i) = None"
    and go: "go_ok (ps i)" by (simp_all add: proceeds_def)
  have ch: "next_chunk chunkSize len = chunkSize" using cs by (rule next_chunk_nonpositive)
  have p1: "\<forall>j. proceeds (ps (Suc i + j))"
  proof
    fix j
    have "proceeds (ps (i + Suc j))" using Suc.prems(1) by blast
    then show "proceeds (ps (Suc i + j))" by simp
  qed
  have r1: "\<forall>j. (len - chunkSize) - of_nat j * chunkSize \<noteq> 0"
  proof
    fix j
    have "len - of_nat (Suc j) * chunkSize \<noteq> 0" using Suc.prems(2) by blast
    then show "(len - chunkSize) - of_nat j * chunkSize \<noteq> 0" by (simp add: algebra_simps)
  qed
  have "copy_loop fuel ps chunkSize (Suc i) (len - chunkSize)
          (group_Add es (fst (part_task (ps i) i))) = None"
    using Suc.IH [OF p1 r1] .
  then show ?case using nz ch sp dn go by (simp add: Let_def)
qed

lemma requested_seek: "requested (if offset \<noteq> 0 then [EvSetOffset offset] else []) = []"
  by simp

lemma chunkSizeTransform_below: "n <s MB \<Longrightarrow> chunkSizeTransform n = Inl ChunkSizeTooSmall"
  by (simp add: chunkSizeTransform_def)


lemma parallelCopy_after_seek:
  assumes "offset = 0 \<or> set_offset_err env = None"
  shows "parallelCopy fuel env p chunkSize offset len =
     (case copy_loop fuel (parts env) chunkSize 0 len [] of
        None \<Rightarrow> None
      | Some (LoopReturn e, l, es, evs) \<Rightarrow>
          Some (Some e, (if offset \<noteq> 0 then [EvSetOffset offset] else [])
                  @ evs @ [EvDstAbort, EvSrcClose])
      | Some (LoopDone, l, es, evs) \<Rightarrow>
          Some (group_Err (group_Add es (dst_commit_err env)),
                (if offset \<noteq> 0 then [EvSetOffset offset] else [])
                  @ evs @ [EvDstCommit, EvDstAbort, EvSrcClose]))"
proof -
  have ns: "(offset \<noteq> 0 \<and> set_offset_err env \<noteq> None) = False"
    using assms by auto
  show ?thesis unfolding parallelCopy_def Let_def ns by simp
qed

lemma parallelCopy_requested:
  assumes "offset = 0 \<or> set_offset_err env = None"
    and "copy_loop fuel (parts env) chunkSize 0 len [] = Some (ex, l, es', evs)"
  shows "\<exists>r evs1. parallelCopy fuel env p chunkSize offset len = Some (r, evs1)
           \<and> requested evs1 = requested evs"
proof (cases ex)
  case LoopDone
  show ?thesis
    unfolding parallelCopy_after_seek [OF assms(1)] assms(2) LoopDone
    by (simp add: requested_append)
next
  case (LoopReturn e)
  show ?thesis
    unfolding parallelCopy_after_seek [OF assms(1)] assms(2) LoopReturn
    by (simp add: requested_append)
qed

text \<open>
  Claim C6, amended. \<open>parallelCopy\<close> does not check the chunk size. With a chunk size
  of 0 or less, once the offset is set (it is 0, or \<open>SetOffset\<close> succeeds) and as long
  as the remaining length is not 0, every iteration requests a source part of that
  size: when the first part that ends the loop (EOF, an error, a refused task) is
  that of iteration \<open>k\<close>, \<open>parallelCopy\<close> returns after \<open>k + 1\<close> requests of that size;
  when no part ever does, it does not return. With a failing \<open>SetOffset\<close> it returns
  that error and requests nothing; with length 0 it requests nothing and returns
  what \<open>dst.Commit\<close> returns. Such a size is rejected before, at configuration time:
  the transform of the flag \<open>parallelism-chunk-size\<close> returns an error for every size
  below 1 MB.
\<close>

theorem chunk_size_checked_in_setup:
  assumes "chunkSize \<le>s 0"
  shows "(\<forall>n. n <s MB \<longrightarrow> chunkSizeTransform n = Inl ChunkSizeTooSmall)
    \<and> chunkSizeTransform chunkSize = Inl ChunkSizeTooSmall
    \<and> (offset \<noteq> 0 \<and> set_offset_err env \<noteq> None \<longrightarrow>
          parallelCopy fuel env p chunkSize offset length'
            = Some (set_offset_err env, [EvSetOffset offset]))
    \<and> ((offset = 0 \<or> set_offset_err env = None) \<and> length' = 0 \<longrightarrow>
          parallelCopy fuel env p chunkSize offset length'
            = Some (dst_commit_err env,
                (if offset \<noteq> 0 then [EvSetOffset offset] else [])
                  @ [EvDstCommit, EvDstAbort, EvSrcClose]))
    \<and> ((offset = 0 \<or> set_offset_err env = None) \<and> stops_at (parts env) 0 k
          \<and> (\<forall>j \<le> k. length' - of_nat j * chunkSize \<noteq> 0) \<and> k < fuel \<longrightarrow>
          (\<exists>r evs. parallelCopy fuel env p chunkSize offset length' = Some (r, evs)
             \<and> requested evs = replicate (Suc k) chunkSize))
    \<and> ((offset = 0 \<or> set_offset_err env = None) \<and> (\<forall>j. proceeds (parts env j))
          \<and> (\<forall>j. length' - of_nat j * chunkSize \<noteq> 0) \<longrightarrow>
          parallelCopy fuel env p chunkSize offset length' = None)"
proof -
  have t: "\<forall>n. n <s MB \<longrightarrow> chunkSizeTransform n = Inl ChunkSizeTooSmall"
    by (simp add: chunkSizeTransform_below)
  have "sint chunkSize \<le> 0" using assms by (simp add: word_sle_eq)
  then have "chunkSize <s MB" by (simp add: word_sless_alt MB_def)
  then have t1: "chunkSizeTransform chunkSize = Inl ChunkSizeTooSmall"
    by (rule chunkSizeTransform_below)
  have a: "offset \<noteq> 0 \<and> set_offset_err env \<noteq> None \<longrightarrow>
          parallelCopy fuel env p chunkSize offset length'
            = Some (set_offset_err env, [EvSetOffset offset])"
    by (simp add: parallelCopy_def)
  have z: "copy_loop fuel (parts env) chunkSize 0 0 [] = Some (LoopDone, 0, [], [])"
    by (cases fuel) simp_all
  have b: "(offset = 0 \<or> set_offset_err env = None) \<and> length' = 0 \<longrightarrow>
          parallelCopy fuel env p chunkSize offset length'
            = Some (dst_commit_err env,
                (if offset \<noteq> 0 then [EvSetOffset offset] else [])
                  @ [EvDstCommit, EvDstAbort, EvSrcClose])"
  proof
    assume h: "(offset = 0 \<or> set_offset_err env = None) \<and> length' = 0"
    then have o: "offset = 0 \<or> set_offset_err env = None" and l: "length' = 0"
      by simp_all
    show "parallelCopy fuel env p chunkSize offset length'
            = Some (dst_commit_err env,
                (if offset \<noteq> 0 then [EvSetOffset offset] else [])
                  @ [EvDstCommit, EvDstAbort, EvSrcClose])"
      unfolding parallelCopy_after_seek [OF o] l z
      by (simp add: group_Add_def group_Err_def split: option.split)
  qed
  have c: "(offset = 0 \<or> set_offset_err env = None) \<and> stops_at (parts env) 0 k
          \<and> (\<forall>j \<le> k. length' - of_nat j * chunkSize \<noteq> 0) \<and> k < fuel \<longrightarrow>
          (\<exists>r evs. parallelCopy fuel env p chunkSize offset length' = Some (r, evs)
             \<and> requested evs = replicate (Suc k) chunkSize)"
  proof (intro impI, elim conjE)
    assume o: "offset = 0 \<or> set_offset_err env = None"
      and s: "stops_at (parts env) 0 k"
      and n: "\<forall>j \<le> k. length' - of_nat j * chunkSize \<noteq> 0"
      and f: "k < fuel"
    obtain l es' evs where
      r: "copy_loop fuel (parts env) chunkSize 0 length' []
            = Some (stop_exit (parts env (0 + k)), l, es', evs)"
      and q: "requested evs = replicate (Suc k) chunkSize"
      using copy_loop_constant_chunk [OF assms s n f, of "[]"] by (elim exE conjE)
    obtain r' evs1 where
      "parallelCopy fuel env p chunkSize offset length' = Some (r', evs1)"
      "requested evs1 = requested evs"
      using parallelCopy_requested [OF o r, of p] by (elim exE conjE)
    then have "parallelCopy fuel env p chunkSize offset length' = Some (r', evs1)
             \<and> requested evs1 = replicate (Suc k) chunkSize"
      using q by simp
    then show "\<exists>r evs. parallelCopy fuel env p chunkSize offset length' = Some (r, evs)
             \<and> requested evs = replicate (Suc k) chunkSize"
      by (intro exI)
  qed
  have d: "(offset = 0 \<or> set_offset_err env = None) \<and> (\<forall>j. proceeds (parts env j))
          \<and> (\<forall>j. length' - of_nat j * chunkSize \<noteq> 0) \<longrightarrow>
          parallelCopy fuel env p chunkSize offset length' = None"
  proof (intro impI, elim conjE)
    assume o: "offset = 0 \<or> set_offset_err env = None"
      and pr: "\<forall>j. proceeds (parts env j)"
      and n: "\<forall>j. length' - of_nat j * chunkSize \<noteq> 0"
    from pr have "\<forall>j. proceeds (parts env (0 + j))" by simp
    then have "copy_loop fuel (parts env) chunkSize 0 length' [] = None"
      using n by (rule copy_loop_diverges [OF assms])
    then show "parallelCopy fuel env p chunkSize offset length' = None"
      using o by (simp add: parallelCopy_after_seek)
  qed
  from t t1 a b c d show ?thesis by (intro conjI)
qed

theorem chunk_size_checked_in_setup_witness:
  "(0::int64) \<le>s 0
   \<and> chunkSizeTransform 0 = Inl ChunkSizeTooSmall
   \<and> chunkSizeTransform 999999 = Inl ChunkSizeTooSmall
   \<and> proceeds (parts example_copy_env 0)
   \<and> src_next (parts example_copy_env 1) = SrcEOF
   \<and> (\<exists>r evs. parallelCopy 2 example_copy_env 4 0 0 5 = Some (r, evs)
          \<and> requested evs = [0, 0])
   \<and> (\<forall>j. proceeds (parts endless_copy_env j))
   \<and> parallelCopy 1000 endless_copy_env 4 0 0 5 = None"
proof -
  have h: "(0::int64) \<le>s 0" by simp
  note g = chunk_size_checked_in_setup [OF h]
  have m: "(999999::int64) <s MB" by (simp add: MB_def)
  have t: "chunkSizeTransform 999999 = Inl ChunkSizeTooSmall"
    using g [THEN conjunct1, rule_format, OF m] .
  have t0: "chunkSizeTransform 0 = Inl ChunkSizeTooSmall"
    using g [THEN conjunct2, THEN conjunct1] .
  have s: "stops_at (parts example_copy_env) 0 1"
    by (simp add: stops_at_def example_copy_env_def one_part_def proceeds_def
        part_ok_def part_eof_def)
  have n: "\<forall>j \<le> 1. (5::int64) - of_nat j * 0 \<noteq> 0" by simp
  have a: "\<exists>r evs. parallelCopy 2 example_copy_env 4 0 0 5 = Some (r, evs)
          \<and> requested evs = replicate (Suc 1) 0"
    using g [THEN conjunct2, THEN conjunct2, THEN conjunct2, THEN conjunct2, THEN conjunct1,
        of 0 example_copy_env 1 5 2 4] s n by simp
  have p: "\<forall>j. proceeds (parts endless_copy_env j)"
    by (simp add: endless_copy_env_def all_ok_def proceeds_def part_ok_def)
  have n': "\<forall>j. (5::int64) - of_nat j * 0 \<noteq> 0" by simp
  have b: "parallelCopy 1000 endless_copy_env 4 0 0 5 = None"
    using g [THEN conjunct2, THEN conjunct2, THEN conjunct2, THEN conjunct2, THEN conjunct2,
        of 0 endless_copy_env 5 1000 4] p n' by simp
  have "replicate (Suc 1) (0::int64) = [0, 0]" by simp
  with a have a': "\<exists>r evs. parallelCopy 2 example_copy_env 4 0 0 5 = Some (r, evs)
          \<and> requested evs = [0, 0]"
    by simp
  have p0: "proceeds (parts example_copy_env 0)"
    by (simp add: example_copy_env_def one_part_def proceeds_def part_ok_def)
  have e1: "src_next (parts example_copy_env 1) = SrcEOF"
    by (simp add: example_copy_env_def one_part_def part_eof_def)
  from h t0 t p0 e1 a' p b show ?thesis by (intro conjI)
qed

subsection \<open>Release of part handles\<close>

text \<open>
  How often each part handle is released in a run of the loop, whatever the
  environment: the source part of iteration \<open>j\<close> is closed once when it was acquired
  and its task was not refused, and never otherwise; the destination part is
  aborted once (by the deferred call of its task) when it was acquired and its task
  was accepted, and committed once, before, when the copy succeeded.
\<close>

lemma src_calls_append: "src_calls (xs @ ys) = src_calls xs @ src_calls ys"
  by (induction xs rule: src_calls.induct) simp_all

lemma dst_calls_append: "dst_calls (xs @ ys) = dst_calls xs @ dst_calls ys"
  by (induction xs rule: dst_calls.induct) simp_all

lemma src_calls_part_of: "j \<in> set (src_calls evs) \<Longrightarrow> \<exists>ev \<in> set evs. part_of ev = Some j"
  by (induction evs rule: src_calls.induct) auto

lemma dst_calls_part_of: "j \<in> set (dst_calls evs) \<Longrightarrow> \<exists>ev \<in> set evs. part_of ev = Some j"
  by (induction evs rule: dst_calls.induct) auto

lemma count_list_part_of:
  "\<forall>ev \<in> set evs. part_of ev \<noteq> part_of x \<Longrightarrow> count_list evs x = 0"
  by (induction evs) auto

lemma part_task_events:
  "snd (part_task pe i) =
     [EvIoCopy i] @ (if copy_err pe = None then [EvPartCommit i] else [])
       @ [EvPartAbort i, EvPartClose i]"
  by (simp add: part_task_def split: option.split)

lemma copy_loop_indices:
  "copy_loop fuel ps cs i len es = Some (ex, l, es', evs) \<Longrightarrow> ev \<in> set evs \<Longrightarrow>
     \<exists>j. part_of ev = Some j \<and> i \<le> j"
proof (induction fuel arbitrary: i len es ex l es' evs)
  case 0
  then show ?case by (simp split: if_splits)
next
  case (Suc fuel)
  show ?case
  proof (cases "len \<noteq> 0 \<and> proceeds (ps i)")
    case False
    then show ?thesis
      using Suc.prems
      by (auto simp: Let_def proceeds_def split: if_splits src_part.splits option.splits)
  next
    case True
    let ?chunk = "next_chunk cs len"
    obtain evs1 where
      r: "copy_loop fuel ps cs (Suc i) (len - ?chunk)
            (group_Add es (fst (part_task (ps i) i))) = Some (ex, l, es', evs1)"
      and e: "evs = [EvSrcNextPart i ?chunk, EvDstNextPart i ?chunk]
                @ snd (part_task (ps i) i) @ evs1"
      using Suc.prems(1) True
      by (auto simp: Let_def proceeds_def split: option.splits)
    show ?thesis
    proof (cases "ev \<in> set evs1")
      case True
      then obtain j where "part_of ev = Some j" "Suc i \<le> j"
        using Suc.IH [OF r] by blast
      then show ?thesis by auto
    next
      case False
      then show ?thesis
        using Suc.prems(2) e by (auto simp: part_task_events)
    qed
  qed
qed


lemma copy_loop_later_parts:
  assumes "copy_loop fuel ps cs (Suc i) len es = Some (ex, l, es', evs)"
  shows "count_list evs (EvPartClose i) = 0" and "count_list evs (EvPartAbort i) = 0"
    and "count_list evs (EvPartCommit i) = 0"
    and "i \<notin> set (src_calls evs)" and "i \<notin> set (dst_calls evs)"
proof -
  have n: "\<forall>ev \<in> set evs. part_of ev \<noteq> Some i"
    using copy_loop_indices [OF assms] by fastforce
  then show "count_list evs (EvPartClose i) = 0" "count_list evs (EvPartAbort i) = 0"
    "count_list evs (EvPartCommit i) = 0"
    by (simp_all add: count_list_part_of)
  show "i \<notin> set (src_calls evs)" using n src_calls_part_of by blast
  show "i \<notin> set (dst_calls evs)" using n dst_calls_part_of by blast
qed

lemma copy_loop_stop:
  assumes "len \<noteq> 0" and "\<not> proceeds (ps i)"
    and "copy_loop (Suc fuel) ps cs i len es = Some (ex, l, es', evs)"
  shows "(src_next (ps i) = SrcEOF \<and> evs = [EvSrcNextPart i (next_chunk cs len)])
    \<or> (\<exists>e. src_next (ps i) = SrcFail e
          \<and> evs = [EvSrcNextPart i (next_chunk cs len), EvReaderError i])
    \<or> (src_next (ps i) = SrcPart \<and> dst_next (ps i) \<noteq> None
          \<and> evs = [EvSrcNextPart i (next_chunk cs len), EvDstNextPart i (next_chunk cs len),
                    EvPartClose i, EvWriterError i])
    \<or> (refused (ps i)
          \<and> evs = [EvSrcNextPart i (next_chunk cs len), EvDstNextPart i (next_chunk cs len)])"
proof (cases "src_next (ps i)")
  case SrcPart
  show ?thesis
  proof (cases "dst_next (ps i)")
    case None
    then have "\<not> go_ok (ps i)" using assms(2) SrcPart by (simp add: proceeds_def)
    then show ?thesis using assms(1,3) SrcPart None by (simp add: Let_def refused_def)
  next
    case (Some e)
    then show ?thesis using assms(1,3) SrcPart by (simp add: Let_def)
  qed
next
  case SrcEOF
  then show ?thesis using assms(1,3) by (simp add: Let_def)
next
  case (SrcFail e)
  then show ?thesis using assms(1,3) by (simp add: Let_def)
qed

lemma copy_loop_releases:
  "copy_loop fuel ps cs i len es = Some (ex, l, es', evs) \<Longrightarrow>
     count_list evs (EvPartClose j)
       = (if j \<in> set (src_calls evs) \<and> src_next (ps j) = SrcPart \<and> \<not> refused (ps j)
          then 1 else 0)
     \<and> count_list evs (EvPartAbort j)
       = (if j \<in> set (dst_calls evs) \<and> dst_next (ps j) = None \<and> go_ok (ps j)
          then 1 else 0)
     \<and> count_list evs (EvPartCommit j)
       = (if j \<in> set (dst_calls evs) \<and> dst_next (ps j) = None \<and> go_ok (ps j)
             \<and> copy_err (ps j) = None
          then 1 else 0)"
proof (induction fuel arbitrary: i len es ex l es' evs)
  case 0
  then show ?case by (simp split: if_splits)
next
  case (Suc fuel)
  show ?case
  proof (cases "len \<noteq> 0 \<and> proceeds (ps i)")
    case False
    show ?thesis
    proof (cases "len = 0")
      case True
      then show ?thesis using Suc.prems by simp
    next
      case nz: False
      then have np: "\<not> proceeds (ps i)" using False by simp
      from copy_loop_stop [OF nz np Suc.prems] show ?thesis
      proof (elim disjE conjE exE)
        assume "src_next (ps i) = SrcEOF" "evs = [EvSrcNextPart i (next_chunk cs len)]"
        then show ?thesis by auto
      next
        fix e
        assume "src_next (ps i) = SrcFail e"
          "evs = [EvSrcNextPart i (next_chunk cs len), EvReaderError i]"
        then show ?thesis by auto
      next
        assume "src_next (ps i) = SrcPart" "dst_next (ps i) \<noteq> None"
          "evs = [EvSrcNextPart i (next_chunk cs len), EvDstNextPart i (next_chunk cs len),
                    EvPartClose i, EvWriterError i]"
        then show ?thesis by (auto simp: refused_def)
      next
        assume "refused (ps i)"
          "evs = [EvSrcNextPart i (next_chunk cs len), EvDstNextPart i (next_chunk cs len)]"
        then show ?thesis by (auto simp: refused_def)
      qed
    qed
  next
    case True
    let ?chunk = "next_chunk cs len"
    let ?head = "[EvSrcNextPart i ?chunk, EvDstNextPart i ?chunk] @ snd (part_task (ps i) i)"
    obtain evs1 where
      r: "copy_loop fuel ps cs (Suc i) (len - ?chunk)
            (group_Add es (fst (part_task (ps i) i))) = Some (ex, l, es', evs1)"
      and e: "evs = ?head @ evs1"
      using Suc.prems(1) True
      by (auto simp: Let_def proceeds_def split: option.splits)
    have sc: "src_calls evs = i # src_calls evs1" and dc: "dst_calls evs = i # dst_calls evs1"
      unfolding e by (simp_all add: src_calls_append dst_calls_append part_task_events)
    show ?thesis
    proof (cases "j = i")
      case same: True
      have "count_list ?head (EvPartClose i) = 1" "count_list ?head (EvPartAbort i) = 1"
        "count_list ?head (EvPartCommit i) = (if copy_err (ps i) = None then 1 else 0)"
        by (simp_all add: part_task_events)
      then show ?thesis
        using same True copy_loop_later_parts(1-3) [OF r] sc dc
        unfolding e by (simp add: proceeds_def refused_def)
    next
      case other: False
      have "count_list ?head (EvPartClose j) = 0" "count_list ?head (EvPartAbort j) = 0"
        "count_list ?head (EvPartCommit j) = 0"
        using other by (simp_all add: part_task_events)
      then show ?thesis
        using other Suc.IH [OF r] sc dc
        unfolding e by simp
    qed
  qed
qed

text \<open>
  Claim C2, at a run whose context is cancelled after both parts of iteration 0 were
  acquired: the limiter refuses the task, the loop is left by \<open>break\<close>, and neither
  \<open>Close\<close> on the source part nor \<open>Commit\<close> or \<open>Abort\<close> on the destination part is
  ever called. On every other path the handles are released, as
  \<open>copy_loop_releases\<close> shows.
\<close>

theorem parallelCopy_refused_submission:
  "src_next (parts cancelled_copy_env 0) = SrcPart
   \<and> dst_next (parts cancelled_copy_env 0) = None
   \<and> go_ok (parts cancelled_copy_env 0) = False
   \<and> parallelCopy 1 cancelled_copy_env 4 (64 * MB) 0 (-1)
       = Some (Some (External 7),
           [EvSrcNextPart 0 (64 * MB), EvDstNextPart 0 (64 * MB),
            EvDstCommit, EvDstAbort, EvSrcClose])
   \<and> count_list [EvSrcNextPart 0 (64 * MB), EvDstNextPart 0 (64 * MB),
            EvDstCommit, EvDstAbort, EvSrcClose] (EvPartClose 0) = 0
   \<and> count_list [EvSrcNextPart 0 (64 * MB), EvDstNextPart 0 (64 * MB),
            EvDstCommit, EvDstAbort, EvSrcClose] (EvPartCommit 0) = 0
   \<and> count_list [EvSrcNextPart 0 (64 * MB), EvDstNextPart 0 (64 * MB),
            EvDstCommit, EvDstAbort, EvSrcClose] (EvPartAbort 0) = 0"
  by (simp add: parallelCopy_def cancelled_copy_env_def all_refused_def part_refused_def
      next_chunk_def MB_def group_Add_def group_Err_def Let_def)

subsection \<open>Errors of a recursive copy\<close>

lemma copy_loop_returns:
  "\<exists>k < fuel. \<not> proceeds (ps (i + k)) \<Longrightarrow> \<exists>r. copy_loop fuel ps cs i len es = Some r"
proof (induction fuel arbitrary: i len es)
  case 0
  then show ?case by simp
next
  case (Suc fuel)
  show ?case
  proof (cases "len = 0")
    case True
    then show ?thesis by simp
  next
    case nz: False
    show ?thesis
    proof (cases "proceeds (ps i)")
      case False
      show ?thesis
      proof (cases "src_next (ps i)")
        case SrcEOF
        then show ?thesis using nz by (simp add: Let_def)
      next
        case (SrcFail e)
        then show ?thesis using nz by (simp add: Let_def)
      next
        case SrcPart
        show ?thesis
        proof (cases "dst_next (ps i)")
          case (Some e)
          then show ?thesis using nz SrcPart by (simp add: Let_def)
        next
          case None
          then have "\<not> go_ok (ps i)" using False SrcPart by (simp add: proceeds_def)
          then show ?thesis using nz SrcPart None by (simp add: Let_def)
        qed
      qed
    next
      case True
      then have sp: "src_next (ps i) = SrcPart" and dn: "dst_next (ps i) = None"
        and go: "go_ok (ps i)" by (simp_all add: proceeds_def)
      obtain k where k: "k < Suc fuel" and np: "\<not> proceeds (ps (i + k))"
        using Suc.prems by blast
      have "k \<noteq> 0"
      proof
        assume "k = 0"
        then show False using np True by simp
      qed
      then obtain k' where k': "k = Suc k'" by (cases k) auto
      have "\<exists>k < fuel. \<not> proceeds (ps (Suc i + k))"
        using k np k' by auto
      then obtain r where
        "copy_loop fuel ps cs (Suc i) (len - next_chunk cs len)
           (group_Add es (fst (part_task (ps i) i))) = Some r"
        using Suc.IH by blast
      then show ?thesis
        using nz sp dn go by (cases r) (simp add: Let_def)
    qed
  qed
qed

lemma failed_errors_append: "failed_errors (xs @ ys) = failed_errors xs @ failed_errors ys"
  by (induction xs rule: failed_errors.induct) simp_all

lemma failed_errors_parts:
  "\<forall>ev \<in> set evs. part_of ev \<noteq> None \<Longrightarrow> failed_errors evs = []"
  by (induction evs rule: failed_errors.induct) simp_all

lemma copy_loop_no_failed:
  assumes "copy_loop fuel ps cs i len es = Some (ex, l, es', evs)"
  shows "failed_errors evs = []"
proof (rule failed_errors_parts, rule ballI)
  fix ev assume "ev \<in> set evs"
  then obtain j where "part_of ev = Some j"
    using copy_loop_indices [OF assms] by blast
  then show "part_of ev \<noteq> None" by simp
qed

lemma parallelCopy_no_failed:
  assumes "parallelCopy fuel env p cs offset len = Some (r, evs)"
  shows "failed_errors evs = []"
proof (cases "offset \<noteq> 0 \<and> set_offset_err env \<noteq> None")
  case True
  then show ?thesis using assms by (auto simp: parallelCopy_def)
next
  case False
  then have o: "offset = 0 \<or> set_offset_err env = None" by auto
  obtain ex l es' evs0 where
    c: "copy_loop fuel (parts env) cs 0 len [] = Some (ex, l, es', evs0)"
    using assms unfolding parallelCopy_after_seek [OF o]
    by (cases "copy_loop fuel (parts env) cs 0 len []") auto
  have f0: "failed_errors evs0 = []" using c by (rule copy_loop_no_failed)
  show ?thesis
  proof (cases ex)
    case LoopDone
    then have "evs = (if offset \<noteq> 0 then [EvSetOffset offset] else [])
                  @ evs0 @ [EvDstCommit, EvDstAbort, EvSrcClose]"
      using assms unfolding parallelCopy_after_seek [OF o] c by simp
    then show ?thesis using f0 by (simp add: failed_errors_append)
  next
    case (LoopReturn e)
    then have "evs = (if offset \<noteq> 0 then [EvSetOffset offset] else [])
                  @ evs0 @ [EvDstAbort, EvSrcClose]"
      using assms unfolding parallelCopy_after_seek [OF o] c by simp
    then show ?thesis using f0 by (simp add: failed_errors_append)
  qed
qed

lemma parallelCopy_returns:
  assumes "\<exists>k < fuel. \<not> proceeds (parts env k)"
  shows "\<exists>r evs. parallelCopy fuel env p cs offset len = Some (r, evs)"
proof (cases "offset \<noteq> 0 \<and> set_offset_err env \<noteq> None")
  case True
  then show ?thesis by (simp add: parallelCopy_def)
next
  case False
  then have o: "offset = 0 \<or> set_offset_err env = None" by auto
  have "\<exists>k < fuel. \<not> proceeds (parts env (0 + k))" using assms by simp
  then obtain r where c: "copy_loop fuel (parts env) cs 0 len [] = Some r"
    using copy_loop_returns by blast
  obtain ex l es' evs0 where r: "r = (ex, l, es', evs0)" by (cases r) auto
  show ?thesis
    unfolding parallelCopy_after_seek [OF o] c r by (cases ex) simp_all
qed

lemma copyFile_returns:
  assumes "sources_end fuel fs"
  shows "\<exists>r evs. copyFile fuel fs c s d pr = Some (r, evs) \<and> failed_errors evs = []"
proof (cases "dryrun c")
  case True
  then show ?thesis by (simp add: copyFile_def)
next
  case nd: False
  show ?thesis
  proof (cases "parseRange (byteRange c)")
    case (Inl e)
    then show ?thesis using nd by (simp add: copyFile_def)
  next
    case (Inr ol)
    obtain offset len where ol: "ol = (offset, len)" by (cases ol) auto
    show ?thesis
    proof (cases "open_err fs s")
      case (Some e)
      then show ?thesis using nd Inr ol by (simp add: copyFile_def)
    next
      case no: None
      show ?thesis
      proof (cases "create_err fs d")
        case (Some e)
        then show ?thesis using nd Inr ol no by (simp add: copyFile_def)
      next
        case nc: None
        have "\<exists>k < fuel. \<not> proceeds (parts (copy_env_of fs s d) k)"
          using assms by (simp add: sources_end_def)
        then obtain r evs where
          p: "parallelCopy fuel (copy_env_of fs s d) (parallelism c) (parallelismChunkSize c)
                offset len = Some (r, evs)"
          using parallelCopy_returns by blast
        have "failed_errors evs = []" using p by (rule parallelCopy_no_failed)
        then show ?thesis
          using nd Inr ol no nc p by (simp add: copyFile_def failed_errors_append)
      qed
    qed
  qed
qed


lemma copy_entries_total:
  assumes se: "sources_end fuel fs"
  shows "\<forall>item \<in> set entries. \<exists>rel. relative_to fs (source c) item = Inr rel \<Longrightarrow>
     \<exists>es' evs. copy_entries fuel fs c k entries es = Some (LoopDone, es', evs)
        \<and> es' = es @ failed_errors evs"
proof (induction entries arbitrary: k es)
  case Nil
  then show ?case by simp
next
  case (Cons item rest)
  obtain rel where rel: "relative_to fs (source c) item = Inr rel"
    using Cons.prems by auto
  let ?dest = "joinDestWith (dest c) rel"
  show ?case
  proof (cases "file_go_ok fs k")
    case False
    then show ?thesis using rel by (simp add: Let_def)
  next
    case True
    obtain r evs0 where cf: "copyFile fuel fs c item ?dest False = Some (r, evs0)"
      and f0: "failed_errors evs0 = []"
      using copyFile_returns [OF se] by blast
    let ?evs1 = "[EvAnnounce (copyVerb item ?dest) item ?dest] @ evs0
                   @ (case r of None \<Rightarrow> [] | Some e \<Rightarrow> [EvFailed (copyVerb item ?dest) e])"
    have f1: "es @ failed_errors ?evs1 = group_Add es r"
      using f0 by (simp add: failed_errors_append group_Add_def split: option.split)
    have "\<forall>item \<in> set rest. \<exists>rel. relative_to fs (source c) item = Inr rel"
      using Cons.prems by simp
    then obtain es' evs2 where
      r2: "copy_entries fuel fs c (Suc k) rest (group_Add es r) = Some (LoopDone, es', evs2)"
      and e2: "es' = group_Add es r @ failed_errors evs2"
      using Cons.IH by blast
    have "copy_entries fuel fs c k (item # rest) es = Some (LoopDone, es', ?evs1 @ evs2)"
      using rel True cf r2 by (simp add: Let_def)
    moreover have "es' = es @ failed_errors (?evs1 @ evs2)"
      using e2 f1 by (simp only: failed_errors_append append_assoc [symmetric])
    ultimately show ?thesis by blast
  qed
qed

text \<open>
  Claim C1 says that the error returned after a listing error keeps the per-file
  errors collected before. It does not: the one entry fails with error 1, which is
  collected and reported, the iterator ends with error 2, and the result is the
  wrapped error 2, in which error 1 does not occur.
\<close>

theorem copyRecursive_listing_error_counterexample:
  "copyRecursive 1 failing_fs tree_cmd
     = Some (Some (Wrapped (External 2)),
         [EvList (LocLocal ''a/''),
          EvAnnounce ''copy'' (LocLocal ''a/1'') (LocLocal ''d/1''),
          EvOpen (LocLocal ''a/1''), EvFailed ''copy'' (External 1)])
   \<and> External 1 \<notin> set (error_parts (Wrapped (External 2)))"
proof -
  have "parseRange [] = Inr (0, -1)" by code_simp
  then show ?thesis
    by (simp add: copyRecursive_def failing_fs_def tree_cmd_def one_entry_def no_open_def
        rel_one_def always_go_def copyFile_def Std_def Let_def joinDestWith_def AppendKey_def
        Local_def Remote_def Directoryish_def ends_with_sep_def copyVerb_def group_Add_def
        Wrap_def)
qed

text \<open>
  Claim C1, amended. When the iterator of the recursive listing ends with an error,
  the error \<open>copyRecursive\<close> returns is exactly that listing error as \<open>errs.Wrap\<close>
  returns it: the per-file errors collected before are not part of it. They are
  returned, aggregated, only when the iterator ends without error. This is for every
  run in which the relative path of every entry can be computed and every source
  ends (or fails, or has a task refused) within the fuel, and then \<open>copyRecursive\<close>
  returns.
\<close>

theorem copyRecursive_listing_error:
  assumes "\<not> Std (source c)" and "\<not> Std (dest c)"
    and "list_result fs (source c) = Inr iter"
    and "\<forall>item \<in> set (items iter). \<exists>rel. relative_to fs (source c) item = Inr rel"
    and "sources_end fuel fs"
  shows "\<exists>r evs. copyRecursive fuel fs c = Some (r, evs)
           \<and> (\<forall>e. iter_err iter = Some e \<longrightarrow> r = Wrap (Some e))
           \<and> (iter_err iter = None \<longrightarrow> r = group_Err (failed_errors evs))"
proof -
  obtain es evs0 where
    ce: "copy_entries fuel fs c 0 (items iter) [] = Some (LoopDone, es, evs0)"
    and es: "es = [] @ failed_errors evs0"
    using copy_entries_total [OF assms(5) assms(4), of 0 "[]"] by blast
  have ge: "(if es \<noteq> [] then group_Err es else None) = group_Err es"
    by (simp add: group_Err_def)
  show ?thesis
  proof (cases "iter_err iter")
    case None
    have "copyRecursive fuel fs c = Some (group_Err es, EvList (source c) # evs0)"
      using assms(1,2,3) ce None by (simp add: copyRecursive_def group_Err_def)
    moreover have "group_Err es = group_Err (failed_errors (EvList (source c) # evs0))"
      using es by simp
    ultimately show ?thesis using None by simp
  next
    case (Some e)
    have "copyRecursive fuel fs c = Some (Wrap (Some e), EvList (source c) # evs0)"
      using assms(1,2,3) ce Some by (simp add: copyRecursive_def)
    then show ?thesis using Some by simp
  qed
qed

theorem copyRecursive_listing_error_witness:
  "\<not> Std (source tree_cmd) \<and> \<not> Std (dest tree_cmd)
   \<and> list_result failing_fs (source tree_cmd)
        = Inr \<lparr>items = [LocLocal ''a/1''], iter_err = Some (External 2)\<rparr>
   \<and> relative_to failing_fs (source tree_cmd) (LocLocal ''a/1'') = Inr ''1''
   \<and> sources_end 2 failing_fs
   \<and> (\<exists>evs. copyRecursive 2 failing_fs tree_cmd = Some (Some (Wrapped (External 2)), evs))
   \<and> list_result clean_fs (source tree_cmd)
        = Inr \<lparr>items = [LocLocal ''a/1''], iter_err = None\<rparr>
   \<and> sources_end 2 clean_fs
   \<and> (\<exists>r evs. copyRecursive 2 clean_fs tree_cmd = Some (r, evs)
          \<and> r = group_Err (failed_errors evs))"
proof -
  let ?iter = "\<lparr>items = [LocLocal ''a/1''], iter_err = Some (External 2)\<rparr>"
  let ?clean = "\<lparr>items = [LocLocal ''a/1''], iter_err = None\<rparr>"
  have h1: "\<not> Std (source tree_cmd)" and h2: "\<not> Std (dest tree_cmd)"
    by (simp_all add: Std_def tree_cmd_def)
  have h3: "list_result failing_fs (source tree_cmd) = Inr ?iter"
    by (simp add: failing_fs_def one_entry_def)
  have h3c: "list_result clean_fs (source tree_cmd) = Inr ?clean"
    by (simp add: clean_fs_def one_entry_clean_def)
  have rl: "relative_to failing_fs (source tree_cmd) (LocLocal ''a/1'') = Inr ''1''"
    by (simp add: failing_fs_def rel_one_def)
  then have h4: "\<forall>item \<in> set (items ?iter).
      \<exists>rel. relative_to failing_fs (source tree_cmd) item = Inr rel"
    by simp
  have "relative_to clean_fs (source tree_cmd) (LocLocal ''a/1'') = Inr ''1''"
    by (simp add: clean_fs_def rel_one_def)
  then have h4c: "\<forall>item \<in> set (items ?clean).
      \<exists>rel. relative_to clean_fs (source tree_cmd) item = Inr rel"
    by simp
  have np: "\<not> proceeds (one_part 1)"
    by (simp add: proceeds_def one_part_def part_eof_def)
  have "\<forall>s d. \<exists>k < (2::nat). \<not> proceeds (parts (every_env s d) k)"
  proof (intro allI)
    fix s d
    have "(1::nat) < 2 \<and> \<not> proceeds (parts (every_env s d) 1)"
      using np by (simp add: every_env_def)
    then show "\<exists>k < (2::nat). \<not> proceeds (parts (every_env s d) k)" by (rule exI)
  qed
  then have h5: "sources_end 2 failing_fs" and h5c: "sources_end 2 clean_fs"
    by (simp_all add: sources_end_def failing_fs_def clean_fs_def)
  have w: "Wrap (Some (External 2)) = Some (Wrapped (External 2))"
    by (simp add: Wrap_def)
  have a: "\<exists>evs. copyRecursive 2 failing_fs tree_cmd = Some (Some (Wrapped (External 2)), evs)"
    using copyRecursive_listing_error [OF h1 h2 h3 h4 h5] w by auto
  have b: "\<exists>r evs. copyRecursive 2 clean_fs tree_cmd = Some (r, evs)
          \<and> r = group_Err (failed_errors evs)"
    using copyRecursive_listing_error [OF h1 h2 h3c h4c h5c] by auto
  from h1 h2 h3 rl h5 a h3c h5c b show ?thesis by (intro conjI)
qed

end
